theory Spec2Isabelle
  imports Complex_Main "HOL-Library.Word" "HOL-Library.AList"
begin

unbundle bit_operations_syntax

section \<open>Legion: a shallow embedding of \<^verbatim>\<open>Legion.py\<close>\<close>

text \<open>
  The development follows the source file top-down.  Python exceptions are values of
  the type \<open>error\<close>; a function that can raise returns \<open>error + 'a\<close> with \<open>Inl\<close> for the
  exception.  \<^verbatim>\<open>debug_assertion\<close> is modelled at the default logging level
  (\<^verbatim>\<open>LOGGER.setLevel(logging.ERROR)\<close>), where it is Python's \<^verbatim>\<open>assert\<close>: a failed
  assertion raises \<open>AssertionError\<close>.
\<close>

datatype error =
    AssertionError
  | AttributeError
  | KeyError
  | IndexError
  | ZeroDivisionError
  | ValueError
  | OverflowError
  | StructError
  | SystemExit int

type_synonym byte = "8 word"

type_synonym bytes = "byte list"

subsection \<open>Sequencing of fallible computations\<close>

fun map_result :: "('a \<Rightarrow> error + 'b) \<Rightarrow> 'a list \<Rightarrow> error + 'b list" where
  "map_result f [] = Inr []"
| "map_result f (x # xs) =
     (case f x of
        Inl e \<Rightarrow> Inl e
      | Inr y \<Rightarrow> (case map_result f xs of Inl e \<Rightarrow> Inl e | Inr ys \<Rightarrow> Inr (y # ys)))"

subsection \<open>The runner: \<^verbatim>\<open>binary_execute\<close> and its \<^verbatim>\<open>unpack\<close>\<close>

text \<open>
  \<^verbatim>\<open>struct.unpack_from('q', output, i * 8)\<close> reads eight bytes at the offset as one
  signed 64-bit integer (\<^verbatim>\<open>q\<close> is \<^verbatim>\<open>long long\<close>) in the byte order of the host,
  since the format has no byte-order prefix.  The host's order is a parameter.
\<close>

datatype byteorder = LittleEndian | BigEndian

definition unpack_from_q :: "byteorder \<Rightarrow> bytes \<Rightarrow> nat \<Rightarrow> error + int" where
  "unpack_from_q bo output off =
     (if off + 8 \<le> length output
      then (let bs = take 8 (drop off output)
            in Inr (sint ((case bo of
                             LittleEndian \<Rightarrow> word_rcat (rev bs)
                           | BigEndian \<Rightarrow> word_rcat bs) :: 64 word)))
      else Inl StructError)"

definition unpack :: "byteorder \<Rightarrow> bytes \<Rightarrow> error + int list" where
  "unpack bo output =
     (if length output mod 8 = 0
      then map_result (\<lambda>i. unpack_from_q bo output (i * 8)) [0 ..< length output div 8]
      else Inl AssertionError)"

text \<open>
  The words of the specification: the unsigned little-endian value of a byte string, and
  the reading of a 64-bit pattern as a two's complement number.
\<close>

definition unsigned_le :: "bytes \<Rightarrow> nat" where
  "unsigned_le bs = (\<Sum>k = 0 ..< length bs. unat (bs ! k) * 256 ^ k)"

definition signed64 :: "nat \<Rightarrow> int" where
  "signed64 n = (if n < 2 ^ 63 then int n else int n - 2 ^ 64)"

text \<open>
  The unsigned value of bytes \<open>8i .. 8i+7\<close> of a stream, read in a byte order: the first
  byte is the least significant one in little-endian order and the most significant one
  in big-endian order.
\<close>

definition chunk_value :: "byteorder \<Rightarrow> bytes \<Rightarrow> nat \<Rightarrow> nat" where
  "chunk_value bo output i =
     (case bo of
        LittleEndian \<Rightarrow> (\<Sum>k = 0 ..< 8. unat (output ! (8 * i + k)) * 256 ^ k)
      | BigEndian \<Rightarrow> (\<Sum>k = 0 ..< 8. unat (output ! (8 * i + (7 - k))) * 256 ^ k))"


subsection \<open>Hyper-parameters and process-wide state\<close>

text \<open>
  The module-level variables that the modelled functions read or write.  The
  command-line front-end assigns \<open>MIN_SAMPLES\<close>, \<open>MAX_SAMPLES\<close>, \<open>TIME_COEFF\<close>,
  \<open>COVERAGE_ONLY\<close> and \<open>SEEDS\<close>; seeds are kept here already encoded as bytes.  The
  artefact sink (\<^verbatim>\<open>SAVE_TESTCASES\<close>, \<^verbatim>\<open>SAVE_TESTINPUTS\<close>) is at its default, off.
\<close>

record globals =
  MIN_SAMPLES :: int
  MAX_SAMPLES :: int
  TIME_COEFF :: real
  MAX_BYTES :: nat
  BUG_RET :: int
  COVERAGE_ONLY :: bool
  FOUND_BUG :: bool
  SOLVING_COUNT :: nat
  SEEDS :: "bytes list"

definition RHO :: real where
  "RHO = 1 / sqrt 2"

text \<open>
  One run of the instrumented binary, as \<^verbatim>\<open>execute\<close> sees it: standard output,
  standard error and the return code, or nothing when the run exceeds the timeout
  (the source then calls \<^verbatim>\<open>exit(2)\<close>).  The binary itself is a parameter.
\<close>

record report =
  stdout_msg :: bytes
  stderr_msg :: bytes
  returncode :: int

type_synonym runner = "bytes \<Rightarrow> report option"

definition binary_execute ::
  "byteorder \<Rightarrow> runner \<Rightarrow> globals \<Rightarrow> bytes \<Rightarrow> error + (int list \<times> globals)" where
  "binary_execute bo run g input_bytes =
     (case run input_bytes of
        None \<Rightarrow> Inl (SystemExit 2)
      | Some rep \<Rightarrow>
          (let g' = (if returncode rep = BUG_RET g then g\<lparr>FOUND_BUG := True\<rparr> else g)
           in case unpack bo (stderr_msg rep) of
                Inl e \<Rightarrow> Inl e
              | Inr trace \<Rightarrow> Inr (trace, g')))"

text \<open>
  The list comprehension of \<^verbatim>\<open>simulation\<close>,
  \<^verbatim>\<open>[binary_execute(mutant) for mutant in mutants if not FOUND_BUG]\<close>: the filter reads
  the global before each mutant, and \<^verbatim>\<open>binary_execute\<close> may set it.
\<close>

fun execute_mutants ::
  "byteorder \<Rightarrow> runner \<Rightarrow> globals \<Rightarrow> bytes list \<Rightarrow> error + (int list list \<times> globals)" where
  "execute_mutants bo run g [] = Inr ([], g)"
| "execute_mutants bo run g (mutant # mutants) =
     (if FOUND_BUG g then execute_mutants bo run g mutants
      else (case binary_execute bo run g mutant of
              Inl e \<Rightarrow> Inl e
            | Inr (trace, g') \<Rightarrow>
                (case execute_mutants bo run g' mutants of
                   Inl e \<Rightarrow> Inl e
                 | Inr (traces, g'') \<Rightarrow> Inr (trace # traces, g''))))"

subsection \<open>Tree nodes\<close>

datatype colour = W | R | G | B

text \<open>A key of \<^verbatim>\<open>children\<close>: the literal \<^verbatim>\<open>'Simulation'\<close> or a block address.\<close>

datatype key = Simulation | Addr int

text \<open>
  A \<^verbatim>\<open>TreeNode\<close> object.  References to nodes are handles (natural numbers) into a
  store.  \<open>children\<close> is the dictionary in insertion order.  \<open>samples\<close> is the generator
  returned by \<^verbatim>\<open>solver.iterate\<close>, held as the list of the items it has yet to yield
  (the generator raises \<^verbatim>\<open>StopIteration\<close> when the list is empty).  The four counters
  start at 0 and are only ever incremented, so they are natural numbers.
\<close>

record 'st node =
  addr :: int
  parent :: "nat option"
  children :: "(key \<times> nat) list"
  colour :: colour
  phantom :: bool
  state :: "'st option"
  samples :: "int option list option"
  sel_try :: nat
  sel_win :: nat
  sim_try :: nat
  sim_win :: nat
  accumulated_time :: real
  fully_explored :: bool

text \<open>
  The store: the objects allocated so far are the handles below \<open>nxt\<close>; \<open>ROOT\<close> is the
  module-level variable of that name.
\<close>

record 'st tree =
  heap :: "nat \<Rightarrow> 'st node"
  nxt :: nat
  ROOT :: nat

definition TreeNode :: "int \<Rightarrow> nat option \<Rightarrow> 'st node" where
  "TreeNode a p =
     \<lparr>addr = a, parent = p, children = [], colour = W, phantom = False,
      state = None, samples = None, sel_try = 0, sel_win = 0, sim_try = 0, sim_win = 0,
      accumulated_time = 0, fully_explored = False\<rparr>"

definition alloc :: "'st tree \<Rightarrow> 'st node \<Rightarrow> nat \<times> 'st tree" where
  "alloc t nd = (nxt t, t\<lparr>heap := (heap t)(nxt t := nd), nxt := Suc (nxt t)\<rparr>)"

definition upd :: "'st tree \<Rightarrow> nat \<Rightarrow> ('st node \<Rightarrow> 'st node) \<Rightarrow> 'st tree" where
  "upd t n f = t\<lparr>heap := (heap t)(n := f (heap t n))\<rparr>"

definition lookup_child :: "'st tree \<Rightarrow> nat \<Rightarrow> key \<Rightarrow> nat option" where
  "lookup_child t n k = map_of (children (heap t n)) k"

definition children_values :: "'st tree \<Rightarrow> nat \<Rightarrow> nat list" where
  "children_values t n = map snd (children (heap t n))"

definition block_children :: "'st tree \<Rightarrow> nat \<Rightarrow> nat list" where
  "block_children t n = filter (\<lambda>c. colour (heap t c) \<noteq> G) (children_values t n)"

subsection \<open>The symbolic execution engine\<close>

text \<open>
  angr is not part of the repository: what the source reads of a \<^verbatim>\<open>SimState\<close> is a
  parameter.  \<open>st_addr\<close> is \<^verbatim>\<open>state.addr\<close>, \<open>successors\<close> is
  \<^verbatim>\<open>state.step().successors\<close>, \<open>constrained\<close> is the truth value of
  \<^verbatim>\<open>state.solver.constraints\<close>, \<open>stdin_bits\<close> is the size in bits of the symbolic
  standard input, and \<open>iterate\<close> is the sequence of items \<^verbatim>\<open>state.solver.iterate\<close>
  yields (\<open>None\<close> stands for Python's \<^verbatim>\<open>None\<close>); \<open>blank_state\<close> is
  \<^verbatim>\<open>project.factory.blank_state(addr=main_addr, stdin=SimFileStream)\<close>.  A state
  object is truthy.
\<close>

record 'st symengine =
  st_addr :: "'st \<Rightarrow> int"
  successors :: "'st \<Rightarrow> 'st list"
  constrained :: "'st \<Rightarrow> bool"
  stdin_bits :: "'st \<Rightarrow> nat"
  iterate :: "'st \<Rightarrow> int option list"
  blank_state :: "int \<Rightarrow> 'st"


subsection \<open>\<^verbatim>\<open>TreeNode.sim_state\<close>, \<^verbatim>\<open>is_root\<close>, \<^verbatim>\<open>is_leaf\<close>\<close>

definition sim_state :: "'st tree \<Rightarrow> nat \<Rightarrow> error + 'st option" where
  "sim_state t n =
     (if colour (heap t n) = R
      then (case lookup_child t n Simulation of
              None \<Rightarrow> Inl KeyError
            | Some s \<Rightarrow> Inr (state (heap t s)))
      else Inr (state (heap t n)))"

definition is_root :: "'st tree \<Rightarrow> nat \<Rightarrow> bool" where
  "is_root t n = (parent (heap t n) = None)"

definition is_leaf :: "'st tree \<Rightarrow> nat \<Rightarrow> bool" where
  "is_leaf t n =
     (children (heap t n) = [] \<or> list_all (\<lambda>c. colour (heap t c) = G) (children_values t n))"

subsection \<open>\<^verbatim>\<open>TreeNode.score\<close>\<close>

text \<open>
  Python floats are read as real numbers extended by the two infinities; the special
  values and the exceptions of \<^verbatim>\<open>score\<close> do not depend on rounding.  \<^verbatim>\<open>math.log\<close>
  raises \<^verbatim>\<open>ValueError\<close> outside its domain and a division by zero raises
  \<^verbatim>\<open>ZeroDivisionError\<close>.
\<close>

datatype pyfloat = MInf | Fin real | PInf

definition average_constraint_solving_time :: "globals \<Rightarrow> 'st node \<Rightarrow> error + real" where
  "average_constraint_solving_time g self =
     (if MIN_SAMPLES g \<le> 0 then Inl ValueError
      else (let count = \<lceil>log 2 (real_of_int (MIN_SAMPLES g)) + real (sel_try self) - 1\<rceil>
            in if count = 0 then Inl ZeroDivisionError
               else Inr (accumulated_time self / real_of_int count)))"

definition expected_sample_num :: "globals \<Rightarrow> 'st node \<Rightarrow> real" where
  "expected_sample_num g self =
     real_of_int (min (MAX_SAMPLES g) (MIN_SAMPLES g * 2 ^ sel_try self))"

definition time_penalisation :: "globals \<Rightarrow> 'st node \<Rightarrow> error + real" where
  "time_penalisation g self =
     (case average_constraint_solving_time g self of
        Inl e \<Rightarrow> Inl e
      | Inr avg \<Rightarrow>
          (if expected_sample_num g self = 0 then Inl ZeroDivisionError
           else Inr (avg / expected_sample_num g self)))"

definition exploit :: "'st node \<Rightarrow> real" where
  "exploit self = real (sim_win self) / real (sel_try self)"

definition score :: "globals \<Rightarrow> 'st tree \<Rightarrow> nat \<Rightarrow> error + pyfloat" where
  "score g t n =
     (let self = heap t n in
      if fully_explored self then Inr MInf
      else if sel_try self = 0 then Inr PInf
      else (case parent self of
              None \<Rightarrow> Inr PInf
            | Some p \<Rightarrow>
                (if sel_try (heap t p) = 0 then Inl ValueError
                 else (let explore = sqrt (2 * ln (real (sel_try (heap t p)))
                                             / (real (sim_try self) + 1));
                           uct_score = exploit self + 2 * RHO * explore
                       in case time_penalisation g self of
                            Inl e \<Rightarrow> Inl e
                          | Inr pen \<Rightarrow> Inr (Fin (uct_score - TIME_COEFF g * pen))))))"

subsection \<open>\<^verbatim>\<open>TreeNode.mark_fully_explored\<close>\<close>

definition set_fully_explored :: "'st tree \<Rightarrow> nat \<Rightarrow> 'st tree" where
  "set_fully_explored t n = upd t n (\<lambda>nd. nd\<lparr>fully_explored := True\<rparr>)"

text \<open>
  The three early returns, in the order of the source: a White node; a child other than
  the Gold one that is not fully explored; a Red node never selected.
\<close>

definition not_eligible :: "'st tree \<Rightarrow> nat \<Rightarrow> bool" where
  "not_eligible t n =
     (colour (heap t n) = W
      \<or> \<not> list_all (\<lambda>c. fully_explored (heap t c)) (block_children t n)
      \<or> (sel_try (heap t n) = 0 \<and> colour (heap t n) = R))"

text \<open>The assignments that follow the early returns, up to the call on the parent.\<close>

definition mark_self :: "'st tree \<Rightarrow> nat \<Rightarrow> error + 'st tree" where
  "mark_self t n =
     (let t1 = set_fully_explored t n in
      if colour (heap t1 n) = R
      then (case lookup_child t1 n Simulation of
              None \<Rightarrow> Inl KeyError
            | Some s \<Rightarrow> Inr (set_fully_explored t1 s))
      else Inr t1)"

partial_function (option) mark_fully_explored ::
  "'st tree \<Rightarrow> nat \<Rightarrow> (error + 'st tree) option" where
  "mark_fully_explored t n =
     (if not_eligible t n then Some (Inr t)
      else (case mark_self t n of
              Inl e \<Rightarrow> Some (Inl e)
            | Inr t2 \<Rightarrow>
                (case parent (heap t2 n) of
                   None \<Rightarrow> Some (Inr t2)
                 | Some p \<Rightarrow> mark_fully_explored t2 p)))"

subsection \<open>\<^verbatim>\<open>TreeNode.add_child\<close>, \<^verbatim>\<open>dye\<close>, \<^verbatim>\<open>match_child\<close>\<close>

definition add_child :: "'st tree \<Rightarrow> nat \<Rightarrow> key \<Rightarrow> nat \<Rightarrow> error + 'st tree" where
  "add_child t n k new_child =
     (if (k = Simulation) \<noteq> (k = Addr (addr (heap t new_child)))
      then Inr (upd t n (\<lambda>nd. nd\<lparr>children := AList.update k new_child (children nd)\<rparr>))
      else Inl AssertionError)"

function dye ::
  "'st tree \<Rightarrow> nat \<Rightarrow> colour \<Rightarrow> 'st option \<Rightarrow> int option list option \<Rightarrow> error + 'st tree" where
  "dye t n c st smp =
     (if colour (heap t n) \<noteq> W then Inl AssertionError
      else if \<not> (c = B \<or> st \<noteq> None) then Inl AssertionError
      else (let t1 = upd t n (\<lambda>nd. nd\<lparr>colour := c\<rparr>) in
            if c = R
            then (if lookup_child t1 n Simulation \<noteq> None then Inl AssertionError
                  else (let (s, t2) = alloc t1 (TreeNode (addr (heap t1 n)) (Some n))
                        in case add_child t2 n Simulation s of
                             Inl e \<Rightarrow> Inl e
                           | Inr t3 \<Rightarrow>
                               (case lookup_child t3 n Simulation of
                                  None \<Rightarrow> Inl KeyError
                                | Some s' \<Rightarrow> dye t3 s' G st smp)))
            else Inr (upd t1 n (\<lambda>nd. nd\<lparr>state := st, samples := smp\<rparr>))))"
  by pat_completeness auto
termination
  by (relation "measure (\<lambda>(t, n, c, st, smp). if c = R then 1 else 0)") auto

definition match_child :: "'st tree \<Rightarrow> nat \<Rightarrow> int \<Rightarrow> error + (bool \<times> nat \<times> 'st tree)" where
  "match_child t n a =
     (case lookup_child t n (Addr a) of
        Some c \<Rightarrow> Inr (phantom (heap t c), c, upd t c (\<lambda>nd. nd\<lparr>phantom := False\<rparr>))
      | None \<Rightarrow>
          (let (c, t1) = alloc t (TreeNode a (Some n))
           in case add_child t1 n (Addr a) c of
                Inl e \<Rightarrow> Inl e
              | Inr t2 \<Rightarrow> Inr (True, c, t2)))"


subsection \<open>The sampler: \<^verbatim>\<open>mutate\<close>, \<^verbatim>\<open>app_fuzzing\<close>, \<^verbatim>\<open>random_fuzzing\<close>\<close>

text \<open>\<^verbatim>\<open>val.to_bytes(length, 'big')\<close>: an \<^verbatim>\<open>OverflowError\<close> when the value does not fit.\<close>

definition to_bytes_big :: "int \<Rightarrow> nat \<Rightarrow> error + bytes" where
  "to_bytes_big val len =
     (if val < 0 \<or> 256 ^ len \<le> val then Inl OverflowError
      else Inr (map (\<lambda>i. word_of_int (val div 256 ^ (len - 1 - i))) [0 ..< len]))"

text \<open>
  The \<^verbatim>\<open>while\<close> loop of \<^verbatim>\<open>app_fuzzing\<close> over the items the generator has left.  It
  returns the results, what is left of the generator, and whether the generator raised
  \<^verbatim>\<open>StopIteration\<close>.
\<close>

fun app_fuzzing_loop ::
  "globals \<Rightarrow> nat \<Rightarrow> int option list \<Rightarrow> bytes list \<Rightarrow> error + (bytes list \<times> int option list \<times> bool)" where
  "app_fuzzing_loop g byte_len [] results =
     (if int (length results) < MAX_SAMPLES g then Inr (results, [], True)
      else Inr (results, [], False))"
| "app_fuzzing_loop g byte_len (val # rest) results =
     (if \<not> int (length results) < MAX_SAMPLES g then Inr (results, val # rest, False)
      else (case val of
              None \<Rightarrow>
                (if MIN_SAMPLES g \<le> int (length results) then Inr (results, rest, False)
                 else app_fuzzing_loop g byte_len rest results)
            | Some v \<Rightarrow>
                (case to_bytes_big v byte_len of
                   Inl e \<Rightarrow> Inl e
                 | Inr result \<Rightarrow> app_fuzzing_loop g byte_len rest (results @ [result]))))"

definition app_fuzzing ::
  "'st symengine \<Rightarrow> globals \<Rightarrow> 'st tree \<Rightarrow> nat \<Rightarrow> (error + (bytes list \<times> 'st tree)) option" where
  "app_fuzzing eng g t n =
     (case state (heap t n) of
        None \<Rightarrow> Some (Inl AttributeError)
      | Some st \<Rightarrow>
          (let byte_len = (stdin_bits eng st + 7) div 8;
               items = (case samples (heap t n) of None \<Rightarrow> iterate eng st | Some its \<Rightarrow> its)
           in case app_fuzzing_loop g byte_len items [] of
                Inl e \<Rightarrow> Some (Inl e)
              | Inr (results, rest, exhausted) \<Rightarrow>
                  (let t1 = upd t n (\<lambda>nd. nd\<lparr>samples := Some rest\<rparr>)
                   in if exhausted
                      then (case mark_fully_explored (set_fully_explored t1 n) n of
                              None \<Rightarrow> None
                            | Some (Inl e) \<Rightarrow> Some (Inl e)
                            | Some (Inr t2) \<Rightarrow> Some (Inr (results, t2)))
                      else Some (Inr (results, t1)))))"

text \<open>
  \<^verbatim>\<open>os.urandom\<close> is a parameter: the tape of random bytes the call will draw.
\<close>

definition random_fuzzing :: "globals \<Rightarrow> (nat \<Rightarrow> byte) \<Rightarrow> bytes list" where
  "random_fuzzing g tape =
     map (\<lambda>i. map (\<lambda>j. tape (i * MAX_BYTES g + j)) [0 ..< MAX_BYTES g])
       [0 ..< nat (MIN_SAMPLES g)]"

definition mutate ::
  "'st symengine \<Rightarrow> (nat \<Rightarrow> byte) \<Rightarrow> globals \<Rightarrow> 'st tree \<Rightarrow> nat
     \<Rightarrow> (error + (bytes list \<times> globals \<times> 'st tree)) option" where
  "mutate eng tape g t n =
     (let g1 = g\<lparr>SOLVING_COUNT := SOLVING_COUNT g + 1\<rparr> in
      if (case state (heap t n) of None \<Rightarrow> False | Some st \<Rightarrow> constrained eng st)
      then (case app_fuzzing eng g1 t n of
              None \<Rightarrow> None
            | Some (Inl e) \<Rightarrow> Some (Inl e)
            | Some (Inr (results, t')) \<Rightarrow> Some (Inr (results, g1, t')))
      else Some (Inr (random_fuzzing g1 tape, g1, t)))"

subsection \<open>\<^verbatim>\<open>simulation\<close>\<close>

definition simulation ::
  "'st symengine \<Rightarrow> (nat \<Rightarrow> byte) \<Rightarrow> byteorder \<Rightarrow> runner \<Rightarrow> globals \<Rightarrow> 'st tree \<Rightarrow> nat option
     \<Rightarrow> (error + (int list list \<times> globals \<times> 'st tree)) option" where
  "simulation eng tape bo run g t node =
     (case (case node of
              Some n \<Rightarrow> mutate eng tape g t n
            | None \<Rightarrow>
                (if SEEDS g \<noteq> [] then Some (Inr (SEEDS g, g, t))
                 else Some (Inr (random_fuzzing g tape, g, t)))) of
        None \<Rightarrow> None
      | Some (Inl e) \<Rightarrow> Some (Inl e)
      | Some (Inr (mutants, g1, t1)) \<Rightarrow>
          (case execute_mutants bo run g1 mutants of
             Inl e \<Rightarrow> Some (Inl e)
           | Inr (traces, g2) \<Rightarrow> Some (Inr (traces, g2, t1))))"

subsection \<open>\<^verbatim>\<open>expansion\<close> and \<^verbatim>\<open>integrate_path\<close>\<close>

text \<open>
  The \<^verbatim>\<open>for\<close> loop of \<^verbatim>\<open>integrate_path\<close>; it returns \<^verbatim>\<open>is_new\<close>, the node the walk
  ends on, and the store.
\<close>

fun integrate_path_loop ::
  "'st tree \<Rightarrow> nat \<Rightarrow> bool \<Rightarrow> int list \<Rightarrow> error + (bool \<times> nat \<times> 'st tree)" where
  "integrate_path_loop t node is_new [] = Inr (is_new, node, t)"
| "integrate_path_loop t node is_new (a # rest) =
     (case match_child t node a of
        Inl e \<Rightarrow> Inl e
      | Inr (new_child, c, t') \<Rightarrow> integrate_path_loop t' c (is_new \<or> new_child) rest)"

definition integrate_path :: "'st tree \<Rightarrow> int list \<Rightarrow> error + (bool \<times> 'st tree)" where
  "integrate_path t trace =
     (case trace of
        [] \<Rightarrow> Inl IndexError
      | a0 # rest \<Rightarrow>
          (if a0 \<noteq> addr (heap t (ROOT t)) then Inl AssertionError
           else (case integrate_path_loop t (ROOT t) False rest of
                   Inl e \<Rightarrow> Inl e
                 | Inr (is_new, node, t1) \<Rightarrow>
                     Inr (is_new \<or> sim_try (heap t1 node) = 0,
                          upd t1 node (\<lambda>nd. nd\<lparr>sim_try :=
                             (if sim_try nd \<noteq> 0 then sim_try nd else 1)\<rparr>)))))"

fun expansion :: "'st tree \<Rightarrow> int list list \<Rightarrow> error + (bool list \<times> 'st tree)" where
  "expansion t [] = Inr ([], t)"
| "expansion t (trace # traces) =
     (case integrate_path t trace of
        Inl e \<Rightarrow> Inl e
      | Inr (is_new, t1) \<Rightarrow>
          (case expansion t1 traces of
             Inl e \<Rightarrow> Inl e
           | Inr (are_new, t2) \<Rightarrow> Inr (is_new # are_new, t2)))"

subsection \<open>\<^verbatim>\<open>propagation\<close>\<close>

partial_function (option) propagate_selection_path ::
  "'st tree \<Rightarrow> nat option \<Rightarrow> nat \<Rightarrow> 'st tree option" where
  "propagate_selection_path t node k =
     (case node of
        None \<Rightarrow> Some t
      | Some n \<Rightarrow>
          propagate_selection_path (upd t n (\<lambda>nd. nd\<lparr>sel_try := sel_try nd + k\<rparr>))
            (parent (heap t n)) k)"

definition record_simulation :: "'st tree \<Rightarrow> nat \<Rightarrow> bool \<Rightarrow> 'st tree" where
  "record_simulation t n new =
     (let t1 = upd t n (\<lambda>nd. nd\<lparr>sim_win := sim_win nd + (if new then 1 else 0)\<rparr>);
          t2 = upd t1 n (\<lambda>nd. nd\<lparr>sim_try := sim_try nd + 1\<rparr>)
      in case lookup_child t2 n Simulation of
           None \<Rightarrow> t2
         | Some s \<Rightarrow> upd t2 s (\<lambda>nd. nd\<lparr>sim_try := sim_try nd + 1\<rparr>))"

text \<open>The \<^verbatim>\<open>for\<close> loop of \<^verbatim>\<open>propagate_execution_trace\<close>; it returns the last node.\<close>

fun propagate_execution_trace_loop ::
  "'st tree \<Rightarrow> nat \<Rightarrow> bool \<Rightarrow> int list \<Rightarrow> error + (nat \<times> 'st tree)" where
  "propagate_execution_trace_loop t node is_new [] = Inr (node, t)"
| "propagate_execution_trace_loop t node is_new (a # rest) =
     (case lookup_child t node (Addr a) of
        None \<Rightarrow> Inl KeyError
      | Some c \<Rightarrow> propagate_execution_trace_loop (record_simulation t c is_new) c is_new rest)"

definition propagate_execution_trace ::
  "'st tree \<Rightarrow> int list \<Rightarrow> bool \<Rightarrow> (error + 'st tree) option" where
  "propagate_execution_trace t trace is_new =
     (case trace of
        [] \<Rightarrow> Some (Inl IndexError)
      | a0 # rest \<Rightarrow>
          (if a0 \<noteq> addr (heap t (ROOT t)) then Some (Inl AssertionError)
           else (case propagate_execution_trace_loop
                        (record_simulation t (ROOT t) is_new) (ROOT t) is_new rest of
                   Inl e \<Rightarrow> Some (Inl e)
                 | Inr (node, t1) \<Rightarrow> mark_fully_explored t1 node)))"

fun propagate_execution_traces_loop ::
  "'st tree \<Rightarrow> (int list \<times> bool) list \<Rightarrow> (error + 'st tree) option" where
  "propagate_execution_traces_loop t [] = Some (Inr t)"
| "propagate_execution_traces_loop t ((trace, is_new) # rest) =
     (case propagate_execution_trace t trace is_new of
        None \<Rightarrow> None
      | Some (Inl e) \<Rightarrow> Some (Inl e)
      | Some (Inr t1) \<Rightarrow> propagate_execution_traces_loop t1 rest)"

definition propagate_execution_traces ::
  "'st tree \<Rightarrow> int list list \<Rightarrow> bool list \<Rightarrow> (error + 'st tree) option" where
  "propagate_execution_traces t traces are_new =
     (if length traces \<noteq> length are_new then Some (Inl AssertionError)
      else propagate_execution_traces_loop t (zip traces are_new))"

definition propagation ::
  "'st tree \<Rightarrow> nat \<Rightarrow> int list list \<Rightarrow> bool list \<Rightarrow> (error + 'st tree) option" where
  "propagation t node traces are_new =
     (case propagate_selection_path t (Some node) (length are_new) of
        None \<Rightarrow> None
      | Some t1 \<Rightarrow> propagate_execution_traces t1 traces are_new)"


subsection \<open>The colouring protocol: \<^verbatim>\<open>dye_siblings\<close>\<close>

definition symex :: "'st symengine \<Rightarrow> 'st option \<Rightarrow> error + 'st list" where
  "symex eng st =
     (case st of None \<Rightarrow> Inl AttributeError | Some s \<Rightarrow> Inr (successors eng s))"

text \<open>
  The \<^verbatim>\<open>while\<close> loop of \<^verbatim>\<open>symex_to_match\<close>.  Nothing bounds the number of forced
  steps, so the loop is a partial function: \<open>None\<close> is a loop that never ends.
\<close>

partial_function (option) symex_to_match_loop ::
  "'st symengine \<Rightarrow> int \<Rightarrow> 'st list \<Rightarrow> (error + 'st list) option" where
  "symex_to_match_loop eng a child_states =
     (if child_states \<noteq> [] \<and> a \<notin> set (map (st_addr eng) child_states)
      then (if length child_states = 1
            then symex_to_match_loop eng a (successors eng (hd child_states))
            else Some (Inl AssertionError))
      else Some (Inr child_states))"

definition symex_to_match ::
  "'st symengine \<Rightarrow> 'st tree \<Rightarrow> nat \<Rightarrow> (error + 'st list) option" where
  "symex_to_match eng t target =
     (case parent (heap t target) of
        None \<Rightarrow> Some (Inl AttributeError)
      | Some p \<Rightarrow>
          (case sim_state t p of
             Inl e \<Rightarrow> Some (Inl e)
           | Inr st \<Rightarrow>
               (case symex eng st of
                  Inl e \<Rightarrow> Some (Inl e)
                | Inr child_states \<Rightarrow>
                    symex_to_match_loop eng (addr (heap t target)) child_states)))"

fun match_node_states ::
  "'st symengine \<Rightarrow> 'st tree \<Rightarrow> 'st \<Rightarrow> nat list \<Rightarrow> error + (bool \<times> 'st tree)" where
  "match_node_states eng t st [] = Inr (False, t)"
| "match_node_states eng t st (c # cs) =
     (if addr (heap t c) \<noteq> st_addr eng st then match_node_states eng t st cs
      else (case dye t c R (Some st) None of
              Inl e \<Rightarrow> Inl e
            | Inr t' \<Rightarrow> Inr (True, t')))"

definition add_phantom :: "'st symengine \<Rightarrow> 'st tree \<Rightarrow> nat \<Rightarrow> 'st \<Rightarrow> error + 'st tree" where
  "add_phantom eng t p st =
     (let a = st_addr eng st in
      if lookup_child t p (Addr a) \<noteq> None then Inl AssertionError
      else (let (c, t1) = alloc t (TreeNode a (Some p))
            in case add_child t1 p (Addr a) c of
                 Inl e \<Rightarrow> Inl e
               | Inr t2 \<Rightarrow>
                   (case lookup_child t2 p (Addr a) of
                      None \<Rightarrow> Inl KeyError
                    | Some c' \<Rightarrow>
                        (case dye t2 c' R (Some st) None of
                           Inl e \<Rightarrow> Inl e
                         | Inr t3 \<Rightarrow>
                             (case lookup_child t3 p (Addr a) of
                                None \<Rightarrow> Inl KeyError
                              | Some c'' \<Rightarrow>
                                  Inr (upd t3 c'' (\<lambda>nd. nd\<lparr>phantom := True\<rparr>)))))))"

text \<open>The \<^verbatim>\<open>for state in sibling_states\<close> loop of \<^verbatim>\<open>dye_siblings\<close>.\<close>

fun dye_siblings_loop ::
  "'st symengine \<Rightarrow> 'st tree \<Rightarrow> nat \<Rightarrow> 'st list \<Rightarrow> error + 'st tree" where
  "dye_siblings_loop eng t p [] = Inr t"
| "dye_siblings_loop eng t p (st # sts) =
     (case match_node_states eng t st (block_children t p) of
        Inl e \<Rightarrow> Inl e
      | Inr (matched, t1) \<Rightarrow>
          (if matched then dye_siblings_loop eng t1 p sts
           else (case add_phantom eng t1 p st of
                   Inl e \<Rightarrow> Inl e
                 | Inr t2 \<Rightarrow> dye_siblings_loop eng t2 p sts)))"

text \<open>
  The three \<^verbatim>\<open>if\<close> statements of \<^verbatim>\<open>dye_siblings\<close> exclude one another (the second
  empties the list with \<^verbatim>\<open>pop\<close>), so they are written as one chain.
\<close>

definition dye_siblings ::
  "'st symengine \<Rightarrow> 'st tree \<Rightarrow> nat \<Rightarrow> (error + 'st tree) option" where
  "dye_siblings eng t c =
     (case symex_to_match eng t c of
        None \<Rightarrow> None
      | Some (Inl e) \<Rightarrow> Some (Inl e)
      | Some (Inr sibling_states) \<Rightarrow>
          (case parent (heap t c) of
             None \<Rightarrow> Some (Inl AttributeError)
           | Some p \<Rightarrow>
               (if sibling_states = []
                then mark_fully_explored (set_fully_explored t c) p
                else if length sibling_states = 1
                then (let st = last sibling_states in
                      if addr (heap t c) \<noteq> st_addr eng st then Some (Inl AssertionError)
                      else Some (dye t c B (Some st) None))
                else (case dye_siblings_loop eng t p sibling_states of
                        Inl e \<Rightarrow> Some (Inl e)
                      | Inr t1 \<Rightarrow>
                          (if list_all (\<lambda>s. colour (heap t1 s) = R) (block_children t1 p)
                           then Some (Inr t1)
                           else Some (Inl AssertionError))))))"

subsection \<open>\<^verbatim>\<open>initialisation\<close>: the root\<close>

text \<open>The module-level \<^verbatim>\<open>ROOT = TreeNode()\<close>.\<close>

definition initial_tree :: "'st tree" where
  "initial_tree = \<lparr>heap = (\<lambda>_. TreeNode (- 1) None), nxt = 1, ROOT = 0\<rparr>"

definition init_root :: "'st symengine \<Rightarrow> 'st tree \<Rightarrow> int list list \<Rightarrow> error + 'st tree" where
  "init_root eng t traces =
     (if traces = [] \<or> [] \<in> set traces then Inl IndexError
      else (let firsts = map hd traces; main_addr = hd firsts in
            if \<not> list_all (\<lambda>x. x = main_addr) firsts then Inl AssertionError
            else (let (root, t1) = alloc t (TreeNode main_addr None)
                  in case dye t1 root R (Some (blank_state eng main_addr)) None of
                       Inl e \<Rightarrow> Inl e
                     | Inr t2 \<Rightarrow> Inr (t2\<lparr>ROOT := root\<rparr>))))"


text \<open>The recursive equations of the partial functions are their code equations.\<close>

declare mark_fully_explored.simps [code]

declare symex_to_match_loop.simps [code]

declare propagate_selection_path.simps [code]


section \<open>Runs, and what stays true along them\<close>

subsection \<open>The operations of a run on the tree\<close>

text \<open>
  Every statement of the source that changes the tree belongs to one of the operations
  below, applied to a node that exists (a handle below \<open>nxt\<close>):
  \<^item> in \<^verbatim>\<open>selection\<close>: \<^verbatim>\<open>node.mark_fully_explored()\<close> on a leaf, \<^verbatim>\<open>dye_siblings\<close> on a
    White node, and \<^verbatim>\<open>node.fully_explored = True; node.parent.mark_fully_explored()\<close> on
    a node without children;
  \<^item> in \<^verbatim>\<open>simulation\<close>: \<^verbatim>\<open>node.mutate()\<close>;
  \<^item> \<^verbatim>\<open>expansion\<close> of the traces followed by \<^verbatim>\<open>propagation\<close> of the same traces, as in
    \<^verbatim>\<open>mcts\<close> and \<^verbatim>\<open>initialisation\<close>.
  The choice of the node (\<^verbatim>\<open>best_child\<close>, which draws at random) and the traces (which
  the binary produces) are left open: a run of the program is a sequence of these
  steps from the tree that \<^verbatim>\<open>init_root\<close> builds.  An operation that raises ends the run.
\<close>

inductive step :: "'st symengine \<Rightarrow> 'st tree \<Rightarrow> 'st tree \<Rightarrow> bool" for eng :: "'st symengine" where
  step_leaf:
    "n < nxt t \<Longrightarrow> is_leaf t n \<Longrightarrow> mark_fully_explored t n = Some (Inr t') \<Longrightarrow> step eng t t'"
| step_dye:
    "c < nxt t \<Longrightarrow> colour (heap t c) = W \<Longrightarrow> dye_siblings eng t c = Some (Inr t')
     \<Longrightarrow> step eng t t'"
| step_childless:
    "n < nxt t \<Longrightarrow> children (heap t n) = [] \<Longrightarrow> parent (heap t n) = Some p
     \<Longrightarrow> mark_fully_explored (set_fully_explored t n) p = Some (Inr t') \<Longrightarrow> step eng t t'"
| step_mutate:
    "n < nxt t \<Longrightarrow> mutate eng tape g t n = Some (Inr (mutants, g', t')) \<Longrightarrow> step eng t t'"
| step_update:
    "n < nxt t \<Longrightarrow> expansion t traces = Inr (are_new, t1)
     \<Longrightarrow> propagation t1 n traces are_new = Some (Inr t') \<Longrightarrow> step eng t t'"

inductive reachable :: "'st symengine \<Rightarrow> 'st tree \<Rightarrow> bool" for eng :: "'st symengine" where
  reach_init: "init_root eng initial_tree traces = Inr t \<Longrightarrow> reachable eng t"
| reach_step: "reachable eng t \<Longrightarrow> step eng t t' \<Longrightarrow> reachable eng t'"

subsection \<open>Frames\<close>

text \<open>The fields of a node that the invariant of the tree speaks about.\<close>

definition shape ::
  "'st node \<Rightarrow> int \<times> nat option \<times> (key \<times> nat) list \<times> colour \<times> bool \<times> nat \<times> nat" where
  "shape nd = (addr nd, parent nd, children nd, colour nd, phantom nd, sim_try nd, sim_win nd)"

definition same_shape :: "'st tree \<Rightarrow> 'st tree \<Rightarrow> bool" where
  "same_shape t t' \<longleftrightarrow>
     nxt t' = nxt t \<and> ROOT t' = ROOT t \<and> (\<forall>m. shape (heap t' m) = shape (heap t m))"

text \<open>Two stores that differ only in \<open>fully_explored\<close> flags, which were raised.\<close>

definition only_explored :: "'st tree \<Rightarrow> 'st tree \<Rightarrow> bool" where
  "only_explored t t' \<longleftrightarrow>
     nxt t' = nxt t \<and> ROOT t' = ROOT t
     \<and> (\<forall>m. (heap t' m)\<lparr>fully_explored := True\<rparr> = (heap t m)\<lparr>fully_explored := True\<rparr>)
     \<and> (\<forall>m. fully_explored (heap t m) \<longrightarrow> fully_explored (heap t' m))"

subsection \<open>The invariant of the tree\<close>

text \<open>
  For a node \<open>n\<close>: the keys of its children are distinct; its parent was allocated before
  it and lists it as a child; its children were allocated after it, point back to it,
  the one keyed \<^verbatim>\<open>'Simulation'\<close> is Gold and one keyed by an address is not Gold and has
  that address; a Gold node has \<open>sim_win = 0\<close> and is no phantom; a phantom has
  \<open>sim_try = 0\<close> and no child keyed by an address.
\<close>

definition wf_node :: "'st tree \<Rightarrow> nat \<Rightarrow> bool" where
  "wf_node t n \<longleftrightarrow>
     distinct (map fst (children (heap t n)))
     \<and> (\<forall>p. parent (heap t n) = Some p \<longrightarrow> p < n \<and> n \<in> snd ` set (children (heap t p)))
     \<and> (\<forall>k c. (k, c) \<in> set (children (heap t n)) \<longrightarrow>
            n < c \<and> c < nxt t \<and> parent (heap t c) = Some n
            \<and> (k = Simulation \<longrightarrow> colour (heap t c) = G)
            \<and> (\<forall>a. k = Addr a \<longrightarrow> colour (heap t c) \<noteq> G \<and> addr (heap t c) = a))
     \<and> (colour (heap t n) = G \<longrightarrow> sim_win (heap t n) = 0 \<and> \<not> phantom (heap t n))
     \<and> (phantom (heap t n) \<longrightarrow>
            sim_try (heap t n) = 0 \<and> (\<forall>a c. (Addr a, c) \<notin> set (children (heap t n))))"

definition wf :: "'st tree \<Rightarrow> bool" where
  "wf t \<longleftrightarrow>
     ROOT t < nxt t \<and> colour (heap t (ROOT t)) \<noteq> G \<and> \<not> phantom (heap t (ROOT t))
     \<and> (\<forall>n < nxt t. wf_node t n)"

subsection \<open>The order of colours\<close>

text \<open>
  What one operation may do to colours and to the shape of the tree.  A node that exists
  keeps its colour, or was White and is now Red or Black; it keeps its parent and every
  child it had.  A Gold node that is new is the \<^verbatim>\<open>'Simulation'\<close> child of a Red node that
  was White before the operation or is new itself.
\<close>

definition colour_step :: "'st tree \<Rightarrow> 'st tree \<Rightarrow> bool" where
  "colour_step t t' \<longleftrightarrow>
     nxt t \<le> nxt t' \<and> ROOT t' = ROOT t
     \<and> (\<forall>n < nxt t.
           (colour (heap t' n) = colour (heap t n)
            \<or> (colour (heap t n) = W \<and> (colour (heap t' n) = R \<or> colour (heap t' n) = B)))
           \<and> parent (heap t' n) = parent (heap t n)
           \<and> (\<forall>k c. lookup_child t n k = Some c \<longrightarrow> lookup_child t' n k = Some c))
     \<and> (\<forall>m. nxt t \<le> m \<and> m < nxt t' \<and> colour (heap t' m) = G \<longrightarrow>
           (\<exists>n < nxt t'. lookup_child t' n Simulation = Some m \<and> colour (heap t' n) = R
                 \<and> (n < nxt t \<longrightarrow> colour (heap t n) = W)))"

subsection \<open>Walks along a trace\<close>

text \<open>The node a trace leads to, along children keyed by the addresses of the trace.\<close>

fun walk :: "'st tree \<Rightarrow> nat \<Rightarrow> int list \<Rightarrow> nat option" where
  "walk t n [] = Some n"
| "walk t n (a # rest) =
     (case lookup_child t n (Addr a) of None \<Rightarrow> None | Some c \<Rightarrow> walk t c rest)"

text \<open>A trace whose walk exists and meets no phantom.\<close>

fun path_clear :: "'st tree \<Rightarrow> nat \<Rightarrow> int list \<Rightarrow> bool" where
  "path_clear t n [] = True"
| "path_clear t n (a # rest) =
     (case lookup_child t n (Addr a) of
        None \<Rightarrow> False
      | Some c \<Rightarrow> \<not> phantom (heap t c) \<and> path_clear t c rest)"


subsection \<open>Attaching a new node\<close>

text \<open>
  The store after a new object \<open>nd\<close> was allocated and entered under the key \<open>k\<close>, which
  it did not have, in the children of \<open>n\<close>: what \<^verbatim>\<open>TreeNode(...)\<close> followed by
  \<^verbatim>\<open>add_child\<close> does.
\<close>

definition attach :: "'st tree \<Rightarrow> nat \<Rightarrow> key \<Rightarrow> 'st node \<Rightarrow> 'st tree" where
  "attach t n k nd =
     \<lparr>heap = (heap t)(n := (heap t n)\<lparr>children := children (heap t n) @ [(k, nxt t)]\<rparr>,
                       nxt t := nd),
      nxt = Suc (nxt t), ROOT = ROOT t\<rparr>"


text \<open>An operation that turns no node that exists into a phantom.\<close>

definition no_new_phantom :: "'st tree \<Rightarrow> 'st tree \<Rightarrow> bool" where
  "no_new_phantom t t' \<longleftrightarrow> (\<forall>m < nxt t. phantom (heap t' m) \<longrightarrow> phantom (heap t m))"


text \<open>Two stores with the same nodes, links, colours and phantom flags.\<close>

definition links :: "'st node \<Rightarrow> int \<times> nat option \<times> (key \<times> nat) list \<times> colour \<times> bool" where
  "links nd = (addr nd, parent nd, children nd, colour nd, phantom nd)"

definition same_links :: "'st tree \<Rightarrow> 'st tree \<Rightarrow> bool" where
  "same_links t t' \<longleftrightarrow>
     nxt t' = nxt t \<and> ROOT t' = ROOT t \<and> (\<forall>m. links (heap t' m) = links (heap t m))"


subsection \<open>The rules of marking\<close>

text \<open>
  A node \<open>m\<close> of the tree \<open>t\<close> that the rules allow to be marked, given the marks of \<open>t'\<close>:
  it is not White, it is not a Red node never selected, and each of its children other
  than the Gold one is marked in \<open>t'\<close>.
\<close>

definition marked_by_rule :: "'st tree \<Rightarrow> 'st tree \<Rightarrow> nat \<Rightarrow> bool" where
  "marked_by_rule t t' m \<longleftrightarrow>
     colour (heap t m) \<noteq> W
     \<and> \<not> (colour (heap t m) = R \<and> sel_try (heap t m) = 0)
     \<and> list_all (\<lambda>c. fully_explored (heap t' c)) (block_children t m)"

subsection \<open>Forced successors\<close>

text \<open>
  The successor sets that single-stepping passes through on the way to the address \<open>a\<close>:
  a set that is empty or holds a state at \<open>a\<close> is where it stops; from a set of one
  state at another address it goes on with the successors of that state.
\<close>

inductive forced_chain :: "'st symengine \<Rightarrow> int \<Rightarrow> 'st list \<Rightarrow> 'st list \<Rightarrow> bool"
  for eng :: "'st symengine" and a :: int where
  chain_stop:
    "states = [] \<or> a \<in> set (map (st_addr eng) states) \<Longrightarrow> forced_chain eng a states states"
| chain_step:
    "a \<noteq> st_addr eng s \<Longrightarrow> forced_chain eng a (successors eng s) ss
     \<Longrightarrow> forced_chain eng a [s] ss"

section \<open>Concrete inputs\<close>

text \<open>The hyper-parameters and flags as the source initialises them.\<close>

definition default_globals :: globals where
  "default_globals =
     \<lparr>MIN_SAMPLES = 5, MAX_SAMPLES = 100, TIME_COEFF = 0, MAX_BYTES = 100, BUG_RET = 100,
      COVERAGE_ONLY = False, FOUND_BUG = False, SOLVING_COUNT = 0, SEEDS = []\<rparr>"

text \<open>A binary that ignores its input, writes \<open>err\<close> to standard error and returns \<open>ret\<close>.\<close>

definition constant_binary :: "bytes \<Rightarrow> int \<Rightarrow> runner" where
  "constant_binary err ret = (\<lambda>input_bytes.
     Some \<lparr>stdout_msg = [], stderr_msg = err, returncode = ret\<rparr>)"

text \<open>A binary that never returns within the timeout.\<close>

definition hanging_binary :: runner where
  "hanging_binary = (\<lambda>input_bytes. None)"

text \<open>
  A program whose entry block \<open>10\<close> branches to the blocks \<open>20\<close> and \<open>30\<close>; block \<open>20\<close>
  continues to block \<open>40\<close>, where the program ends, and block \<open>30\<close> ends the program.  A
  symbolic state is the address of its block.  The entry state carries no constraint,
  every other state does; the standard input is one byte, and the solver of a state
  yields five values, then asks for constraint solving, then has one more value.
\<close>

definition fork_engine :: "nat symengine" where
  "fork_engine =
     \<lparr>st_addr = (\<lambda>s. int s),
      successors = (\<lambda>s. if s = 10 then [20, 30] else if s = 20 then [40] else []),
      constrained = (\<lambda>s. s \<noteq> 10),
      stdin_bits = (\<lambda>s. 8),
      iterate = (\<lambda>s. [Some 65, Some 66, Some 67, Some 68, Some 69, None, Some 70]),
      blank_state = (\<lambda>a. nat a)\<rparr>"

text \<open>
  A tree as \<^verbatim>\<open>score\<close> meets it: the root (handle 0, Red, selected twice) with its Gold
  child (handle 1, selected once) and three block children: one fully explored
  (handle 2), one never selected (handle 3) and one selected once (handle 4).
\<close>

definition score_tree :: "nat tree" where
  "score_tree =
     \<lparr>heap = (\<lambda>_. TreeNode (- 1) None)
        (0 := (TreeNode 10 None)
                \<lparr>children := [(Simulation, 1), (Addr 20, 2), (Addr 30, 3), (Addr 40, 4)],
                 colour := R, sel_try := 2, sim_try := 2, sim_win := 2\<rparr>,
         1 := (TreeNode 10 (Some 0))
                \<lparr>colour := G, state := Some 10, sel_try := 1, sim_try := 2\<rparr>,
         2 := (TreeNode 20 (Some 0))
                \<lparr>colour := B, state := Some 20, sel_try := 1, sim_try := 1, sim_win := 1,
                 fully_explored := True\<rparr>,
         3 := (TreeNode 30 (Some 0)) \<lparr>sim_try := 1, sim_win := 1\<rparr>,
         4 := (TreeNode 40 (Some 0))
                \<lparr>colour := B, state := Some 40, sel_try := 1, sim_try := 1\<rparr>),
      nxt = 5, ROOT = 0\<rparr>"

text \<open>
  The start of a run on that program with one seed whose trace is \<open>[10, 20]\<close>: the tree
  \<^verbatim>\<open>init_root\<close> builds; the tree after \<^verbatim>\<open>expansion\<close> and \<^verbatim>\<open>propagation\<close> of the trace
  from the Gold child of the root, as in \<^verbatim>\<open>initialisation\<close>; and the tree after
  \<^verbatim>\<open>dye_siblings\<close> on the White node that the trace created.
\<close>

definition run_init :: "nat tree" where
  "run_init = projr (init_root fork_engine initial_tree [[10, 20]])"

definition run_expanded :: "bool list \<times> nat tree" where
  "run_expanded = projr (expansion run_init [[10, 20]])"

definition run_propagated :: "nat tree" where
  "run_propagated =
     projr (the (propagation (snd run_expanded) 2 [[10, 20]] (fst run_expanded)))"

definition run_dyed :: "nat tree" where
  "run_dyed = projr (the (dye_siblings fork_engine run_propagated 3))"

text \<open>
  The sampler on the Gold child (handle 4) of the node dyed Red above, called directly
  (\<^verbatim>\<open>app_fuzzing\<close>) and through \<^verbatim>\<open>mutate\<close>; the tape of random bytes is all zero.
\<close>

definition zero_tape :: "nat \<Rightarrow> byte" where
  "zero_tape = (\<lambda>i. 0)"

definition run_sampled :: "bytes list \<times> nat tree" where
  "run_sampled = projr (the (app_fuzzing fork_engine default_globals run_dyed 4))"

definition run_mutated :: "bytes list \<times> globals \<times> nat tree" where
  "run_mutated = projr (the (mutate fork_engine zero_tape default_globals run_dyed 4))"

text \<open>
  A binary that echoes its input on standard error, followed by seven zero bytes, and
  returns the bug code \<open>100\<close> on the input \<open>trigger\<close> and \<open>0\<close> otherwise.
\<close>

definition crashing_binary :: "bytes \<Rightarrow> runner" where
  "crashing_binary trigger = (\<lambda>input_bytes.
     Some \<lparr>stdout_msg = [], stderr_msg = input_bytes @ [0, 0, 0, 0, 0, 0, 0],
           returncode = (if input_bytes = trigger then 100 else 0)\<rparr>)"

text \<open>Coverage-only mode with three seeds of one byte.\<close>

definition coverage_globals :: globals where
  "coverage_globals = default_globals\<lparr>COVERAGE_ONLY := True, SEEDS := [[1], [2], [3]]\<rparr>"

text \<open>
  A batch of three traces integrated into the tree after \<^verbatim>\<open>dye_siblings\<close>: the first
  ends on a node that was simulated before, the second on the phantom for block \<open>30\<close>,
  the third creates a node below it.
\<close>

definition run_batch :: "bool list \<times> nat tree" where
  "run_batch = projr (expansion run_dyed [[10, 20], [10, 30], [10, 30, 50]])"

definition run_batch_first :: "bool list \<times> nat tree" where
  "run_batch_first = projr (expansion run_dyed [[10, 20]])"

definition run_batch_second :: "bool \<times> nat tree" where
  "run_batch_second = projr (integrate_path (snd run_batch_first) [10, 30])"

text \<open>
  A tree for \<^verbatim>\<open>mark_fully_explored\<close>: the root (handle 0, Red, selected twice) with its
  Gold child (handle 1) and one block child (handle 2, Red, selected once), which has
  its Gold child (handle 3) and two Black leaves, one not marked (handle 4) and one
  marked (handle 5).  Three variants: the leaf 4 is White; the leaf 5 is not marked;
  the node 2 was never selected.
\<close>

definition mark_tree :: "nat tree" where
  "mark_tree =
     \<lparr>heap = (\<lambda>_. TreeNode (- 1) None)
        (0 := (TreeNode 10 None)
                \<lparr>children := [(Simulation, 1), (Addr 20, 2)], colour := R,
                 sel_try := 2, sim_try := 2, sim_win := 2\<rparr>,
         1 := (TreeNode 10 (Some 0)) \<lparr>colour := G, state := Some 10, sel_try := 2, sim_try := 2\<rparr>,
         2 := (TreeNode 20 (Some 0))
                \<lparr>children := [(Simulation, 3), (Addr 40, 4), (Addr 50, 5)], colour := R,
                 sel_try := 1, sim_try := 2, sim_win := 2\<rparr>,
         3 := (TreeNode 20 (Some 2)) \<lparr>colour := G, state := Some 20, sel_try := 1, sim_try := 2\<rparr>,
         4 := (TreeNode 40 (Some 2)) \<lparr>colour := B, state := Some 40, sim_try := 1, sim_win := 1\<rparr>,
         5 := (TreeNode 50 (Some 2))
                \<lparr>colour := B, state := Some 50, sim_try := 1, sim_win := 1,
                 fully_explored := True\<rparr>),
      nxt = 6, ROOT = 0\<rparr>"

definition marked_tree :: "nat tree" where
  "marked_tree = projr (the (mark_fully_explored mark_tree 4))"

definition white_leaf_tree :: "nat tree" where
  "white_leaf_tree = upd mark_tree 4 (\<lambda>nd. nd\<lparr>colour := W, state := None\<rparr>)"

definition open_sibling_tree :: "nat tree" where
  "open_sibling_tree = upd mark_tree 5 (\<lambda>nd. nd\<lparr>fully_explored := False\<rparr>)"

definition unselected_tree :: "nat tree" where
  "unselected_tree = upd mark_tree 2 (\<lambda>nd. nd\<lparr>sel_try := 0\<rparr>)"

definition open_sibling_marked :: "nat tree" where
  "open_sibling_marked = projr (the (mark_fully_explored open_sibling_tree 4))"

definition unselected_marked :: "nat tree" where
  "unselected_marked = projr (the (mark_fully_explored unselected_tree 4))"

text \<open>
  The run goes on: two traces, \<open>[10, 20, 40]\<close> and \<open>[10, 30, 50]\<close>, are integrated and
  propagated from the Gold child of the root.  They create a White node for block \<open>40\<close>
  (handle 7) under the node of block \<open>20\<close>, and a White node for an address \<open>50\<close>
  (handle 8) under the node of block \<open>30\<close>.  \<^verbatim>\<open>dye_siblings\<close> on the first meets the one
  successor of block \<open>20\<close>; on the second it meets the end of the program.
\<close>

definition run_grown_expanded :: "bool list \<times> nat tree" where
  "run_grown_expanded = projr (expansion run_dyed [[10, 20, 40], [10, 30, 50]])"

definition run_grown :: "nat tree" where
  "run_grown =
     projr (the (propagation (snd run_grown_expanded) 2 [[10, 20, 40], [10, 30, 50]]
                   (fst run_grown_expanded)))"

definition run_forced :: "nat tree" where
  "run_forced = projr (the (dye_siblings fork_engine run_grown 7))"

definition run_ended :: "nat tree" where
  "run_ended = projr (the (dye_siblings fork_engine run_grown 8))"


section \<open>Basic facts about the store\<close>

lemma heap_upd [simp]: "heap (upd t n f) m = (if m = n then f (heap t n) else heap t m)"
  by (simp add: upd_def)

lemma nxt_upd [simp]: "nxt (upd t n f) = nxt t"
  by (simp add: upd_def)

lemma ROOT_upd [simp]: "ROOT (upd t n f) = ROOT t"
  by (simp add: upd_def)

lemma alloc_simps [simp]:
  "fst (alloc t nd) = nxt t"
  "heap (snd (alloc t nd)) m = (if m = nxt t then nd else heap t m)"
  "nxt (snd (alloc t nd)) = Suc (nxt t)"
  "ROOT (snd (alloc t nd)) = ROOT t"
  by (simp_all add: alloc_def)

lemma update_absent: "map_of al k = None \<Longrightarrow> AList.update k v al = al @ [(k, v)]"
  by (induction al) (auto split: if_splits)

lemma same_shape_fields:
  assumes "same_shape t t'"
  shows "addr (heap t' m) = addr (heap t m)"
    and "parent (heap t' m) = parent (heap t m)"
    and "children (heap t' m) = children (heap t m)"
    and "colour (heap t' m) = colour (heap t m)"
    and "phantom (heap t' m) = phantom (heap t m)"
    and "sim_try (heap t' m) = sim_try (heap t m)"
    and "sim_win (heap t' m) = sim_win (heap t m)"
    and "nxt t' = nxt t" and "ROOT t' = ROOT t"
proof -
  have h: "shape (heap t' m) = shape (heap t m)" "nxt t' = nxt t" "ROOT t' = ROOT t"
    using assms by (simp_all add: same_shape_def)
  from h(1) show "addr (heap t' m) = addr (heap t m)"
    and "parent (heap t' m) = parent (heap t m)"
    and "children (heap t' m) = children (heap t m)"
    and "colour (heap t' m) = colour (heap t m)"
    and "phantom (heap t' m) = phantom (heap t m)"
    and "sim_try (heap t' m) = sim_try (heap t m)"
    and "sim_win (heap t' m) = sim_win (heap t m)"
    by (simp_all add: shape_def)
  show "nxt t' = nxt t" "ROOT t' = ROOT t" by (rule h)+
qed

lemma same_shape_refl: "same_shape t t"
  by (simp add: same_shape_def)

lemma same_shape_trans: "same_shape t t1 \<Longrightarrow> same_shape t1 t2 \<Longrightarrow> same_shape t t2"
  by (simp add: same_shape_def)

lemma same_shape_upd:
  "shape (f (heap t n)) = shape (heap t n) \<Longrightarrow> same_shape t (upd t n f)"
  by (simp add: same_shape_def)

lemma wf_node_same_shape:
  assumes "same_shape t t'" shows "wf_node t' n = wf_node t n"
  by (simp add: wf_node_def same_shape_fields[OF assms])

lemma wf_same_shape:
  assumes "same_shape t t'" shows "wf t' = wf t"
  by (simp add: wf_def wf_node_same_shape[OF assms] same_shape_fields[OF assms])

lemma lookup_child_same_shape:
  assumes "same_shape t t'" shows "lookup_child t' n k = lookup_child t n k"
  by (simp add: lookup_child_def same_shape_fields[OF assms])

lemma colour_step_same_shape:
  assumes "same_shape t t'" shows "colour_step t t'"
  by (auto simp: colour_step_def lookup_child_same_shape[OF assms] same_shape_fields[OF assms])

lemma colour_step_refl: "colour_step t t"
  by (auto simp: colour_step_def)

lemma colour_step_trans:
  assumes a: "colour_step t t1" and b: "colour_step t1 t2"
  shows "colour_step t t2"
  unfolding colour_step_def
proof (intro conjI allI impI)
  show "nxt t \<le> nxt t2" using a b by (simp add: colour_step_def)
  show "ROOT t2 = ROOT t" using a b by (simp add: colour_step_def)
next
  fix n assume n: "n < nxt t"
  then have n1: "n < nxt t1" using a by (simp add: colour_step_def)
  have ca: "colour (heap t1 n) = colour (heap t n)
      \<or> (colour (heap t n) = W \<and> (colour (heap t1 n) = R \<or> colour (heap t1 n) = B))"
    using a n by (simp add: colour_step_def)
  have cb: "colour (heap t2 n) = colour (heap t1 n)
      \<or> (colour (heap t1 n) = W \<and> (colour (heap t2 n) = R \<or> colour (heap t2 n) = B))"
    using b n1 by (simp add: colour_step_def)
  show "colour (heap t2 n) = colour (heap t n)
      \<or> (colour (heap t n) = W \<and> (colour (heap t2 n) = R \<or> colour (heap t2 n) = B))"
    using ca cb by auto
  show "parent (heap t2 n) = parent (heap t n)"
    using a b n n1 by (simp add: colour_step_def)
  fix k c assume "lookup_child t n k = Some c"
  then have "lookup_child t1 n k = Some c" using a n by (simp add: colour_step_def)
  then show "lookup_child t2 n k = Some c" using b n1 by (simp add: colour_step_def)
next
  fix m assume m: "nxt t \<le> m \<and> m < nxt t2 \<and> colour (heap t2 m) = G"
  show "\<exists>n<nxt t2. lookup_child t2 n Simulation = Some m \<and> colour (heap t2 n) = R
           \<and> (n < nxt t \<longrightarrow> colour (heap t n) = W)"
  proof (cases "m < nxt t1")
    case True
    have "colour (heap t2 m) = colour (heap t1 m)
      \<or> (colour (heap t1 m) = W \<and> (colour (heap t2 m) = R \<or> colour (heap t2 m) = B))"
      using b True by (simp add: colour_step_def)
    with m have g: "colour (heap t1 m) = G" by auto
    with a m True obtain n where n: "n < nxt t1" "lookup_child t1 n Simulation = Some m"
      "colour (heap t1 n) = R" "n < nxt t \<longrightarrow> colour (heap t n) = W"
      unfolding colour_step_def by blast
    have "colour (heap t2 n) = colour (heap t1 n)
      \<or> (colour (heap t1 n) = W \<and> (colour (heap t2 n) = R \<or> colour (heap t2 n) = B))"
      using b n(1) by (simp add: colour_step_def)
    with n(3) have "colour (heap t2 n) = R" by auto
    moreover have "lookup_child t2 n Simulation = Some m"
      using b n(1,2) by (simp add: colour_step_def)
    moreover have "n < nxt t2" using b n(1) by (simp add: colour_step_def)
    ultimately show ?thesis using n(4) by blast
  next
    case False
    with b m obtain n where n: "n < nxt t2" "lookup_child t2 n Simulation = Some m"
      "colour (heap t2 n) = R" "n < nxt t1 \<longrightarrow> colour (heap t1 n) = W"
      unfolding colour_step_def by (metis not_le)
    have "n < nxt t \<longrightarrow> colour (heap t n) = W"
    proof
      assume nt: "n < nxt t"
      then have "n < nxt t1" using a by (simp add: colour_step_def)
      with n(4) have w1: "colour (heap t1 n) = W" by simp
      have "colour (heap t1 n) = colour (heap t n)
        \<or> (colour (heap t n) = W \<and> (colour (heap t1 n) = R \<or> colour (heap t1 n) = B))"
        using a nt by (simp add: colour_step_def)
      with w1 show "colour (heap t n) = W" by auto
    qed
    with n show ?thesis by blast
  qed
qed


declare dye.simps [simp del]

lemma lookup_child_upd [simp]:
  "lookup_child (upd t n f) m k =
     (if m = n then map_of (children (f (heap t n))) k else lookup_child t m k)"
  by (simp add: lookup_child_def)

lemma attach_simps [simp]:
  "nxt (attach t n k nd) = Suc (nxt t)"
  "ROOT (attach t n k nd) = ROOT t"
  "heap (attach t n k nd) (nxt t) = nd"
  "n \<noteq> nxt t \<Longrightarrow> heap (attach t n k nd) n
     = (heap t n)\<lparr>children := children (heap t n) @ [(k, nxt t)]\<rparr>"
  "m \<noteq> n \<Longrightarrow> m \<noteq> nxt t \<Longrightarrow> heap (attach t n k nd) m = heap t m"
  by (simp_all add: attach_def)

lemma wf_node_unchanged:
  assumes w: "wf_node t m"
    and same: "heap t' m = heap t m"
    and nx: "nxt t \<le> nxt t'"
    and ch: "\<And>k c. (k, c) \<in> set (children (heap t m)) \<Longrightarrow>
               parent (heap t' c) = parent (heap t c) \<and> addr (heap t' c) = addr (heap t c)
               \<and> (colour (heap t' c) = G) = (colour (heap t c) = G)"
    and pa: "\<And>p. parent (heap t m) = Some p \<Longrightarrow>
               snd ` set (children (heap t p)) \<subseteq> snd ` set (children (heap t' p))"
  shows "wf_node t' m"
  unfolding wf_node_def
proof (intro conjI allI impI)
  show "distinct (map fst (children (heap t' m)))"
    using w same by (simp add: wf_node_def)
next
  fix p assume "parent (heap t' m) = Some p"
  then have p: "parent (heap t m) = Some p" using same by simp
  then show "p < m" using w by (simp add: wf_node_def)
  have "m \<in> snd ` set (children (heap t p))" using w p by (simp add: wf_node_def)
  then show "m \<in> snd ` set (children (heap t' p))" using pa[OF p] by blast
next
  fix k c assume "(k, c) \<in> set (children (heap t' m))"
  then have kc: "(k, c) \<in> set (children (heap t m))" using same by simp
  have old: "m < c \<and> c < nxt t \<and> parent (heap t c) = Some m
     \<and> (k = Simulation \<longrightarrow> colour (heap t c) = G)
     \<and> (\<forall>a. k = Addr a \<longrightarrow> colour (heap t c) \<noteq> G \<and> addr (heap t c) = a)"
    using w kc unfolding wf_node_def by blast
  show "m < c" using old by simp
  show "c < nxt t'" using old nx by simp
  show "parent (heap t' c) = Some m" using old ch[OF kc] by simp
  { assume "k = Simulation"
    then show "colour (heap t' c) = G" using old ch[OF kc] by simp }
  { fix a assume "k = Addr a"
    then show "colour (heap t' c) \<noteq> G" "addr (heap t' c) = a" using old ch[OF kc] by simp_all }
next
  assume "colour (heap t' m) = G"
  then show "sim_win (heap t' m) = 0" "\<not> phantom (heap t' m)"
    using w same by (simp_all add: wf_node_def)
next
  assume "phantom (heap t' m)"
  then show "sim_try (heap t' m) = 0"
    using w same by (simp add: wf_node_def)
next
  fix a c assume "phantom (heap t' m)"
  then show "(Addr a, c) \<notin> set (children (heap t' m))"
    using w same by (simp add: wf_node_def)
qed

text \<open>An update of one node that keeps its address, parent, children and Gold-ness.\<close>

lemma wf_upd:
  assumes w: "wf t"
    and keep: "addr (f (heap t n)) = addr (heap t n)" "parent (f (heap t n)) = parent (heap t n)"
      "children (f (heap t n)) = children (heap t n)"
      "(colour (f (heap t n)) = G) = (colour (heap t n) = G)"
    and gold: "colour (f (heap t n)) = G \<Longrightarrow>
                 sim_win (f (heap t n)) = 0 \<and> \<not> phantom (f (heap t n))"
    and ph: "phantom (f (heap t n)) \<Longrightarrow>
               n \<noteq> ROOT t \<and> sim_try (f (heap t n)) = 0
               \<and> (\<forall>a c. (Addr a, c) \<notin> set (children (heap t n)))"
  shows "wf (upd t n f)"
  unfolding wf_def
proof (intro conjI allI impI)
  show "ROOT (upd t n f) < nxt (upd t n f)" using w by (simp add: wf_def)
  show "colour (heap (upd t n f) (ROOT (upd t n f))) \<noteq> G"
    using w keep by (auto simp: wf_def)
  show "\<not> phantom (heap (upd t n f) (ROOT (upd t n f)))"
    using w ph by (auto simp: wf_def)
next
  fix m assume "m < nxt (upd t n f)"
  then have wm: "wf_node t m" using w by (simp add: wf_def)
  show "wf_node (upd t n f) m"
  proof (cases "m = n")
    case False
    show ?thesis
      by (rule wf_node_unchanged[OF wm]) (use False keep in \<open>auto\<close>)
  next
    case True
    have wn: "wf_node t n" using wm True by simp
    show ?thesis
      unfolding True wf_node_def
    proof (intro conjI allI impI)
      show "distinct (map fst (children (heap (upd t n f) n)))"
        using wn keep by (simp add: wf_node_def)
    next
      fix p assume "parent (heap (upd t n f) n) = Some p"
      then have p: "parent (heap t n) = Some p" using keep by simp
      then have pn: "p < n" "n \<in> snd ` set (children (heap t p))"
        using wn by (simp_all add: wf_node_def)
      show "p < n" by (rule pn)
      show "n \<in> snd ` set (children (heap (upd t n f) p))" using pn by simp
    next
      fix k c assume "(k, c) \<in> set (children (heap (upd t n f) n))"
      then have kc: "(k, c) \<in> set (children (heap t n))" using keep by simp
      have old: "n < c \<and> c < nxt t \<and> parent (heap t c) = Some n
         \<and> (k = Simulation \<longrightarrow> colour (heap t c) = G)
         \<and> (\<forall>a. k = Addr a \<longrightarrow> colour (heap t c) \<noteq> G \<and> addr (heap t c) = a)"
        using wn kc unfolding wf_node_def by blast
      then have cn: "c \<noteq> n" by auto
      show "n < c" using old by simp
      show "c < nxt (upd t n f)" using old by simp
      show "parent (heap (upd t n f) c) = Some n" using old cn by simp
      { assume "k = Simulation"
        then show "colour (heap (upd t n f) c) = G" using old cn by simp }
      { fix a assume "k = Addr a"
        then show "colour (heap (upd t n f) c) \<noteq> G" "addr (heap (upd t n f) c) = a"
          using old cn by simp_all }
    next
      assume "colour (heap (upd t n f) n) = G"
      then show "sim_win (heap (upd t n f) n) = 0" "\<not> phantom (heap (upd t n f) n)"
        using gold by simp_all
    next
      assume "phantom (heap (upd t n f) n)"
      then show "sim_try (heap (upd t n f) n) = 0" using ph by simp
    next
      fix a c assume "phantom (heap (upd t n f) n)"
      then show "(Addr a, c) \<notin> set (children (heap (upd t n f) n))"
        using ph keep by simp
    qed
  qed
qed


lemma map_of_append_absent:
  "map_of al k = None \<Longrightarrow> map_of (al @ [(k, v)]) k' = (if k' = k then Some v else map_of al k')"
  by (induction al) auto

lemma absent_not_key: "map_of al k = None \<Longrightarrow> (k, c) \<notin> set al"
  by (induction al) (auto split: if_splits)

lemma absent_keys: "map_of al k = None \<Longrightarrow> k \<notin> fst ` set al"
  by (simp add: map_of_eq_None_iff)

lemma wf_attach:
  assumes w: "wf t" and n: "n < nxt t"
    and absent: "map_of (children (heap t n)) k = None"
    and nd: "parent nd = Some n" "children nd = []" "\<not> phantom nd"
      "colour nd = G \<Longrightarrow> sim_win nd = 0"
    and key: "k = Simulation \<Longrightarrow> colour nd = G"
      "\<And>a. k = Addr a \<Longrightarrow> colour nd \<noteq> G \<and> addr nd = a \<and> \<not> phantom (heap t n)"
  shows "wf (attach t n k nd)"
  unfolding wf_def
proof (intro conjI allI impI)
  let ?t = "attach t n k nd"
  have ne: "n \<noteq> nxt t" using n by simp
  have r: "ROOT t < nxt t" "colour (heap t (ROOT t)) \<noteq> G" "\<not> phantom (heap t (ROOT t))"
    using w by (simp_all add: wf_def)
  show "ROOT ?t < nxt ?t" using r by simp
  have hr: "ROOT t \<noteq> nxt t" using r by simp
  show "colour (heap ?t (ROOT ?t)) \<noteq> G"
    using r ne hr by (cases "ROOT t = n") simp_all
  show "\<not> phantom (heap ?t (ROOT ?t))"
    using r ne hr by (cases "ROOT t = n") simp_all
  fix m assume m: "m < nxt ?t"
  have wn: "wf_node t n" using w n by (simp add: wf_def)
  consider (new) "m = nxt t" | (par) "m = n" | (other) "m \<noteq> n" "m < nxt t"
    using m by fastforce
  then show "wf_node ?t m"
  proof cases
    case new
    show ?thesis
      unfolding new wf_node_def using nd n ne by (auto simp: image_iff)
  next
    case par
    have old: "\<And>k' c. (k', c) \<in> set (children (heap t n)) \<Longrightarrow>
        n < c \<and> c < nxt t \<and> parent (heap t c) = Some n
         \<and> (k' = Simulation \<longrightarrow> colour (heap t c) = G)
         \<and> (\<forall>a. k' = Addr a \<longrightarrow> colour (heap t c) \<noteq> G \<and> addr (heap t c) = a)"
      using wn unfolding wf_node_def by blast
    show ?thesis
      unfolding par wf_node_def
    proof (intro conjI allI impI)
      show "distinct (map fst (children (heap ?t n)))"
        using wn ne absent_keys[OF absent] by (simp add: wf_node_def)
    next
      fix p assume "parent (heap ?t n) = Some p"
      then have p: "parent (heap t n) = Some p" using ne by simp
      then have pn: "p < n" "n \<in> snd ` set (children (heap t p))"
        using wn by (simp_all add: wf_node_def)
      show "p < n" by (rule pn)
      have "p \<noteq> n" "p \<noteq> nxt t" using pn n by simp_all
      then show "n \<in> snd ` set (children (heap ?t p))" using pn by simp
    next
      fix k' c assume "(k', c) \<in> set (children (heap ?t n))"
      then consider (o) "(k', c) \<in> set (children (heap t n))" | (nw) "k' = k" "c = nxt t"
        using ne by auto
      then have "n < c \<and> c < nxt ?t \<and> parent (heap ?t c) = Some n
         \<and> (k' = Simulation \<longrightarrow> colour (heap ?t c) = G)
         \<and> (\<forall>a. k' = Addr a \<longrightarrow> colour (heap ?t c) \<noteq> G \<and> addr (heap ?t c) = a)"
      proof cases
        case o
        from old[OF o] have "c \<noteq> n" "c \<noteq> nxt t" by auto
        with old[OF o] show ?thesis by simp
      next
        case nw
        then show ?thesis using n nd key by auto
      qed
      then show "n < c" "c < nxt ?t" "parent (heap ?t c) = Some n"
        "k' = Simulation \<Longrightarrow> colour (heap ?t c) = G"
        "\<And>a. k' = Addr a \<Longrightarrow> colour (heap ?t c) \<noteq> G"
        "\<And>a. k' = Addr a \<Longrightarrow> addr (heap ?t c) = a"
        by simp_all
    next
      assume "colour (heap ?t n) = G"
      then show "sim_win (heap ?t n) = 0" "\<not> phantom (heap ?t n)"
        using wn ne by (simp_all add: wf_node_def)
    next
      assume "phantom (heap ?t n)"
      then show "sim_try (heap ?t n) = 0"
        using wn ne by (simp add: wf_node_def)
    next
      fix a c assume "phantom (heap ?t n)"
      then have ph: "phantom (heap t n)" using ne by simp
      then have "\<forall>a c. (Addr a, c) \<notin> set (children (heap t n))"
        using wn by (simp add: wf_node_def)
      moreover have "k \<noteq> Addr a" using key(2) ph by blast
      ultimately show "(Addr a, c) \<notin> set (children (heap ?t n))" using ne by simp
    qed
  next
    case other
    have wm: "wf_node t m" using w other by (simp add: wf_def)
    have hm: "heap ?t m = heap t m" using other by simp
    show ?thesis
    proof (rule wf_node_unchanged[OF wm hm])
      show "nxt t \<le> nxt ?t" by simp
    next
      fix k' c assume kc: "(k', c) \<in> set (children (heap t m))"
      then have "c < nxt t" using wm unfolding wf_node_def by blast
      then have "c \<noteq> nxt t" by simp
      then show "parent (heap ?t c) = parent (heap t c) \<and> addr (heap ?t c) = addr (heap t c)
               \<and> (colour (heap ?t c) = G) = (colour (heap t c) = G)"
        using ne by (cases "c = n") simp_all
    next
      fix p assume "parent (heap t m) = Some p"
      then have "p < m" using wm by (simp add: wf_node_def)
      then have "p \<noteq> nxt t" using other by simp
      then show "snd ` set (children (heap t p)) \<subseteq> snd ` set (children (heap ?t p))"
        using ne by (cases "p = n") auto
    qed
  qed
qed


lemma dye_plain:
  "c \<noteq> R \<Longrightarrow> dye t n c st smp =
     (if colour (heap t n) \<noteq> W \<or> \<not> (c = B \<or> st \<noteq> None) then Inl AssertionError
      else Inr (upd t n (\<lambda>nd. nd\<lparr>colour := c, state := st, samples := smp\<rparr>)))"
  by (subst dye.simps) (auto simp: Let_def upd_def)

text \<open>The store after a White node \<open>n\<close> was dyed Red with state \<open>st\<close>.\<close>

lemma dye_R:
  assumes d: "dye t n R st smp = Inr t'" and n: "n < nxt t"
  shows "colour (heap t n) = W" and "st \<noteq> None" and "lookup_child t n Simulation = None"
    and "t' = attach (upd t n (\<lambda>nd. nd\<lparr>colour := R\<rparr>)) n Simulation
                ((TreeNode (addr (heap t n)) (Some n))\<lparr>colour := G, state := st, samples := smp\<rparr>)"
proof -
  have ne: "nxt t \<noteq> n" "n \<noteq> nxt t" using n by simp_all
  define t1 where "t1 = upd t n (\<lambda>nd. nd\<lparr>colour := R\<rparr>)"
  define t2 where "t2 = snd (alloc t1 (TreeNode (addr (heap t1 n)) (Some n)))"
  define t3 where "t3 = upd t2 n (\<lambda>nd. nd\<lparr>children := AList.update Simulation (nxt t) (children nd)\<rparr>)"
  have pre: "colour (heap t n) = W \<and> st \<noteq> None \<and> lookup_child t n Simulation = None"
    using d by (subst (asm) dye.simps) (auto simp: Let_def lookup_child_def split: if_splits)
  then show "colour (heap t n) = W" and "st \<noteq> None" and "lookup_child t n Simulation = None"
    by simp_all
  have a: "alloc t1 (TreeNode (addr (heap t1 n)) (Some n)) = (nxt t, t2)"
    by (simp add: t2_def alloc_def t1_def)
  have l1: "lookup_child t1 n Simulation = None"
    using pre by (simp add: t1_def lookup_child_def)
  have ac: "add_child t2 n Simulation (nxt t) = Inr t3"
    by (simp add: add_child_def t3_def)
  have l3: "lookup_child t3 n Simulation = Some (nxt t)"
    by (simp add: t3_def lookup_child_def AList.update_conv')
  have w3: "colour (heap t3 (nxt t)) = W"
    using ne by (simp add: t3_def t2_def t1_def TreeNode_def)
  have "dye t n R st smp = dye t3 (nxt t) G st smp"
    using pre l1 a ac l3 by (subst dye.simps) (simp add: Let_def t1_def[symmetric])
  also have "\<dots> = Inr (upd t3 (nxt t) (\<lambda>nd. nd\<lparr>colour := G, state := st, samples := smp\<rparr>))"
    using w3 pre by (simp add: dye_plain)
  finally have t': "t' = upd t3 (nxt t) (\<lambda>nd. nd\<lparr>colour := G, state := st, samples := smp\<rparr>)"
    using d by simp
  have ab: "map_of (children (heap t n)) Simulation = None"
    using pre by (simp add: lookup_child_def)
  show "t' = attach (upd t n (\<lambda>nd. nd\<lparr>colour := R\<rparr>)) n Simulation
                ((TreeNode (addr (heap t n)) (Some n))\<lparr>colour := G, state := st, samples := smp\<rparr>)"
    using ne ab
    by (simp add: t' t3_def t2_def t1_def attach_def upd_def alloc_def fun_eq_iff update_absent)
qed

lemma lookup_child_attach:
  assumes "n \<noteq> nxt t" and "map_of (children (heap t n)) k = None"
  shows "lookup_child (attach t n k nd) m k' =
     (if m = nxt t then map_of (children nd) k'
      else if m = n then (if k' = k then Some (nxt t) else lookup_child t n k')
      else lookup_child t m k')"
  using assms by (auto simp: lookup_child_def attach_def map_add_def split: option.splits)

lemma colour_step_upd:
  assumes "parent (f (heap t n)) = parent (heap t n)"
    and "children (f (heap t n)) = children (heap t n)"
    and "colour (f (heap t n)) = colour (heap t n)
         \<or> (colour (heap t n) = W \<and> (colour (f (heap t n)) = R \<or> colour (f (heap t n)) = B))"
  shows "colour_step t (upd t n f)"
  using assms by (auto simp: colour_step_def lookup_child_def)

lemma colour_step_attach:
  assumes n: "n < nxt t" and absent: "map_of (children (heap t n)) k = None"
    and nd: "colour nd \<noteq> G"
  shows "colour_step t (attach t n k nd)"
proof -
  have ne: "n \<noteq> nxt t" using n by simp
  show ?thesis
    unfolding colour_step_def
    using ne nd absent
    by (auto simp: lookup_child_attach[OF ne absent] lookup_child_def attach_def)
qed

lemma dye_plain_wf:
  assumes w: "wf t" and n: "n < nxt t" and d: "dye t n c st smp = Inr t'" and c: "c = B"
  shows "wf t'" and "colour_step t t'"
    and "t' = upd t n (\<lambda>nd. nd\<lparr>colour := c, state := st, samples := smp\<rparr>)"
    and "colour (heap t n) = W"
proof -
  have e: "t' = upd t n (\<lambda>nd. nd\<lparr>colour := c, state := st, samples := smp\<rparr>)"
    and cw: "colour (heap t n) = W"
    using d c by (auto simp: dye_plain split: if_splits)
  show "t' = upd t n (\<lambda>nd. nd\<lparr>colour := c, state := st, samples := smp\<rparr>)" by (rule e)
  show "colour (heap t n) = W" by (rule cw)
  show "colour_step t t'" unfolding e using cw c by (intro colour_step_upd) simp_all
  have np: "\<not> (phantom (heap t n) \<and> n = ROOT t)" using w by (auto simp: wf_def)
  have wn: "wf_node t n" using w n by (simp add: wf_def)
  show "wf t'" unfolding e
  proof (rule wf_upd[OF w])
    assume "phantom ((heap t n)\<lparr>colour := c, state := st, samples := smp\<rparr>)"
    then have ph: "phantom (heap t n)" by simp
    show "n \<noteq> ROOT t \<and> sim_try ((heap t n)\<lparr>colour := c, state := st, samples := smp\<rparr>) = 0
        \<and> (\<forall>a c. (Addr a, c) \<notin> set (children (heap t n)))"
      using wn ph np by (auto simp: wf_node_def)
  qed (use c cw in simp_all)
qed


lemma dye_R_wf:
  assumes w: "wf t" and n: "n < nxt t" and d: "dye t n R st smp = Inr t'"
  shows "wf t'" and "colour_step t t'"
proof -
  let ?gold = "(TreeNode (addr (heap t n)) (Some n))\<lparr>colour := G, state := st, samples := smp\<rparr>"
  let ?t1 = "upd t n (\<lambda>nd. nd\<lparr>colour := R\<rparr>)"
  note r = dye_R[OF d n]
  have e: "t' = attach ?t1 n Simulation ?gold" by (rule r(4))
  have ab: "map_of (children (heap t n)) Simulation = None"
    using r(3) by (simp add: lookup_child_def)
  have ne: "n \<noteq> nxt t" using n by simp
  have np: "\<not> (phantom (heap t n) \<and> n = ROOT t)" using w by (auto simp: wf_def)
  have wn: "wf_node t n" using w n by (simp add: wf_def)
  have w1: "wf ?t1"
  proof (rule wf_upd[OF w])
    assume "phantom ((heap t n)\<lparr>colour := R\<rparr>)"
    then have ph: "phantom (heap t n)" by simp
    show "n \<noteq> ROOT t \<and> sim_try ((heap t n)\<lparr>colour := R\<rparr>) = 0
        \<and> (\<forall>a c. (Addr a, c) \<notin> set (children (heap t n)))"
      using wn ph np by (auto simp: wf_node_def)
  qed (use r(1) in simp_all)
  show "wf t'" unfolding e
    by (rule wf_attach[OF w1]) (use n ab in \<open>simp_all add: TreeNode_def\<close>)
  have ab1: "map_of (children (heap ?t1 n)) Simulation = None" using ab by simp
  have ne1: "n \<noteq> nxt ?t1" using ne by simp
  show "colour_step t t'"
    unfolding e colour_step_def
  proof (intro conjI allI impI)
    show "nxt t \<le> nxt (attach ?t1 n Simulation ?gold)" by simp
    show "ROOT (attach ?t1 n Simulation ?gold) = ROOT t" by simp
  next
    fix m assume m: "m < nxt t"
    then have mn: "m \<noteq> nxt t" "m \<noteq> nxt ?t1" by simp_all
    show "colour (heap (attach ?t1 n Simulation ?gold) m) = colour (heap t m)
        \<or> (colour (heap t m) = W \<and> (colour (heap (attach ?t1 n Simulation ?gold) m) = R
             \<or> colour (heap (attach ?t1 n Simulation ?gold) m) = B))"
      using mn r(1) ne1 by (cases "m = n") simp_all
    show "parent (heap (attach ?t1 n Simulation ?gold) m) = parent (heap t m)"
      using mn ne1 by (cases "m = n") simp_all
    fix k c assume "lookup_child t m k = Some c"
    then show "lookup_child (attach ?t1 n Simulation ?gold) m k = Some c"
      using mn r(3) by (simp add: lookup_child_attach[OF ne1 ab1]) (auto simp: lookup_child_def)
  next
    fix m assume "nxt t \<le> m \<and> m < nxt (attach ?t1 n Simulation ?gold)
        \<and> colour (heap (attach ?t1 n Simulation ?gold) m) = G"
    then have m: "m = nxt t" by simp
    have "lookup_child (attach ?t1 n Simulation ?gold) n Simulation = Some m"
      using m ne by (simp add: lookup_child_attach[OF ne1 ab1])
    moreover have "colour (heap (attach ?t1 n Simulation ?gold) n) = R"
      using ne1 by simp
    ultimately show "\<exists>q<nxt (attach ?t1 n Simulation ?gold).
        lookup_child (attach ?t1 n Simulation ?gold) q Simulation = Some m
        \<and> colour (heap (attach ?t1 n Simulation ?gold) q) = R
        \<and> (q < nxt t \<longrightarrow> colour (heap t q) = W)"
      using n r(1) by (intro exI[of _ n]) simp
  qed
qed

lemma match_child_old:
  "lookup_child t n (Addr a) = Some c \<Longrightarrow>
     match_child t n a = Inr (phantom (heap t c), c, upd t c (\<lambda>nd. nd\<lparr>phantom := False\<rparr>))"
  by (simp add: match_child_def)

lemma match_child_new:
  assumes "lookup_child t n (Addr a) = None" and "n < nxt t"
  shows "match_child t n a = Inr (True, nxt t, attach t n (Addr a) (TreeNode a (Some n)))"
proof -
  have ne: "nxt t \<noteq> n" using assms by simp
  have ab: "map_of (children (heap t n)) (Addr a) = None"
    using assms by (simp add: lookup_child_def)
  show ?thesis
    using assms ne ab
    by (simp add: match_child_def alloc_def add_child_def TreeNode_def attach_def upd_def
        update_absent fun_eq_iff)
qed

lemma wf_upd_junk:
  assumes w: "wf t" and n: "\<not> n < nxt t"
  shows "wf (upd t n f)"
  unfolding wf_def
proof (intro conjI allI impI)
  have r: "ROOT t < nxt t" using w by (simp add: wf_def)
  then have rn: "ROOT t \<noteq> n" using n by auto
  show "ROOT (upd t n f) < nxt (upd t n f)" using r by simp
  show "colour (heap (upd t n f) (ROOT (upd t n f))) \<noteq> G" using w rn by (simp add: wf_def)
  show "\<not> phantom (heap (upd t n f) (ROOT (upd t n f)))" using w rn by (simp add: wf_def)
  fix m assume "m < nxt (upd t n f)"
  then have m: "m < nxt t" by simp
  then have wm: "wf_node t m" using w by (simp add: wf_def)
  have mn: "m \<noteq> n" using m n by auto
  show "wf_node (upd t n f) m"
  proof (rule wf_node_unchanged[OF wm])
    show "heap (upd t n f) m = heap t m" using mn by simp
    show "nxt t \<le> nxt (upd t n f)" by simp
  next
    fix k c assume "(k, c) \<in> set (children (heap t m))"
    then have "c < nxt t" using wm unfolding wf_node_def by blast
    then have "c \<noteq> n" using n by auto
    then show "parent (heap (upd t n f) c) = parent (heap t c)
        \<and> addr (heap (upd t n f) c) = addr (heap t c)
        \<and> (colour (heap (upd t n f) c) = G) = (colour (heap t c) = G)"
      by simp
  next
    fix p assume "parent (heap t m) = Some p"
    then have "p < m" using wm by (simp add: wf_node_def)
    then have "p \<noteq> n" using m n by auto
    then show "snd ` set (children (heap t p)) \<subseteq> snd ` set (children (heap (upd t n f) p))"
      by simp
  qed
qed

lemma wf_clear_phantom:
  assumes w: "wf t"
  shows "wf (upd t c (\<lambda>nd. nd\<lparr>phantom := False\<rparr>))"
proof (cases "c < nxt t")
  case True
  then have "wf_node t c" using w by (simp add: wf_def)
  then show ?thesis by (intro wf_upd[OF w]) (simp_all add: wf_node_def)
next
  case False
  then show ?thesis by (rule wf_upd_junk[OF w])
qed


lemma colour_stepD:
  assumes "colour_step t t'"
  shows "nxt t \<le> nxt t'" and "ROOT t' = ROOT t"
    and "n < nxt t \<Longrightarrow> lookup_child t n k = Some c \<Longrightarrow> lookup_child t' n k = Some c"
    and "n < nxt t \<Longrightarrow> parent (heap t' n) = parent (heap t n)"
    and "n < nxt t \<Longrightarrow> colour (heap t n) \<noteq> W \<Longrightarrow> colour (heap t' n) = colour (heap t n)"
    and "n < nxt t \<Longrightarrow> colour (heap t n) \<noteq> G \<Longrightarrow> colour (heap t' n) \<noteq> G"
  using assms unfolding colour_step_def by auto

lemma no_new_phantom_refl: "no_new_phantom t t"
  by (simp add: no_new_phantom_def)

lemma no_new_phantom_trans:
  "no_new_phantom t t1 \<Longrightarrow> no_new_phantom t1 t2 \<Longrightarrow> nxt t \<le> nxt t1 \<Longrightarrow> no_new_phantom t t2"
  by (auto simp: no_new_phantom_def)

lemma no_new_phantom_same_shape: "same_shape t t' \<Longrightarrow> no_new_phantom t t'"
  by (simp add: no_new_phantom_def same_shape_fields)

lemma wf_child:
  assumes "wf t" and "n < nxt t" and "lookup_child t n k = Some c"
  shows "c < nxt t" and "n < c" and "parent (heap t c) = Some n"
    and "k = Simulation \<Longrightarrow> colour (heap t c) = G"
    and "k \<noteq> Simulation \<Longrightarrow> colour (heap t c) \<noteq> G"
    and "k = Addr a \<Longrightarrow> addr (heap t c) = a"
proof -
  have wn: "wf_node t n" using assms by (simp add: wf_def)
  have kc: "(k, c) \<in> set (children (heap t n))"
    using assms(3) by (simp add: lookup_child_def map_of_SomeD)
  have old: "n < c \<and> c < nxt t \<and> parent (heap t c) = Some n
     \<and> (k = Simulation \<longrightarrow> colour (heap t c) = G)
     \<and> (\<forall>a. k = Addr a \<longrightarrow> colour (heap t c) \<noteq> G \<and> addr (heap t c) = a)"
    using wn kc unfolding wf_node_def by blast
  then show "c < nxt t" and "n < c" and "parent (heap t c) = Some n"
    and "k = Simulation \<Longrightarrow> colour (heap t c) = G"
    and "k = Addr a \<Longrightarrow> addr (heap t c) = a"
    by simp_all
  show "k \<noteq> Simulation \<Longrightarrow> colour (heap t c) \<noteq> G" using old by (cases k) simp_all
qed

lemma wf_phantom:
  assumes "wf t" and "n < nxt t" and "phantom (heap t n)"
  shows "sim_try (heap t n) = 0" and "lookup_child t n (Addr a) = None"
    and "colour (heap t n) \<noteq> G" and "n \<noteq> ROOT t"
proof -
  have wn: "wf_node t n" using assms by (simp add: wf_def)
  show "sim_try (heap t n) = 0" using wn assms(3) by (simp add: wf_node_def)
  have "\<forall>c. (Addr a, c) \<notin> set (children (heap t n))"
    using wn assms(3) by (simp add: wf_node_def)
  then show "lookup_child t n (Addr a) = None"
    by (metis lookup_child_def map_of_SomeD not_Some_eq)
  show "colour (heap t n) \<noteq> G" using wn assms(3) by (auto simp: wf_node_def)
  show "n \<noteq> ROOT t" using assms by (auto simp: wf_def)
qed

text \<open>What one call of \<^verbatim>\<open>match_child\<close> does, on a node that is no phantom.\<close>

lemma match_child_effect:
  assumes w: "wf t" and n: "n < nxt t" and np: "\<not> phantom (heap t n)"
    and m: "match_child t n a = Inr (b, c, t')"
  shows "wf t'" and "colour_step t t'" and "no_new_phantom t t'"
    and "c < nxt t'" and "\<not> phantom (heap t' c)"
    and "lookup_child t' n (Addr a) = Some c"
    and "\<And>q. q < nxt t \<Longrightarrow> sim_try (heap t' q) = sim_try (heap t q)"
    and "nxt t \<le> c \<Longrightarrow> sim_try (heap t' c) = 0"
    and "b \<longleftrightarrow> nxt t < nxt t' \<or> (c < nxt t \<and> phantom (heap t c))"
    and "\<And>a'. b \<Longrightarrow> lookup_child t' c (Addr a') = None"
    and "nxt t < nxt t' \<Longrightarrow> nxt t \<le> c"
proof -
  have all: "wf t' \<and> colour_step t t' \<and> no_new_phantom t t' \<and> c < nxt t'
    \<and> \<not> phantom (heap t' c) \<and> lookup_child t' n (Addr a) = Some c
    \<and> (\<forall>q. q < nxt t \<longrightarrow> sim_try (heap t' q) = sim_try (heap t q))
    \<and> (nxt t \<le> c \<longrightarrow> sim_try (heap t' c) = 0)
    \<and> (b \<longleftrightarrow> nxt t < nxt t' \<or> (c < nxt t \<and> phantom (heap t c)))
    \<and> (\<forall>a'. b \<longrightarrow> lookup_child t' c (Addr a') = None)
    \<and> (nxt t < nxt t' \<longrightarrow> nxt t \<le> c)"
  proof (cases "lookup_child t n (Addr a)")
    case (Some c0)
    from m match_child_old[OF Some]
    have e: "b = phantom (heap t c0)" "c = c0" "t' = upd t c0 (\<lambda>nd. nd\<lparr>phantom := False\<rparr>)"
      by auto
    have c0: "c0 < nxt t" using wf_child(1)[OF w n Some] .
    have "wf t'" unfolding e by (rule wf_clear_phantom[OF w])
    moreover have "colour_step t t'" unfolding e by (rule colour_step_upd) simp_all
    moreover have "no_new_phantom t t'" unfolding e by (simp add: no_new_phantom_def)
    moreover have "lookup_child t' n (Addr a) = Some c"
      unfolding e using Some by (auto simp: lookup_child_def)
    moreover have "\<forall>a'. b \<longrightarrow> lookup_child t' c (Addr a') = None"
      unfolding e using wf_phantom(2)[OF w c0] by (simp add: lookup_child_def)
    ultimately show ?thesis using c0 by (simp add: e)
  next
    case None
    let ?nd = "TreeNode a (Some n) :: 'a node"
    from m match_child_new[OF None n]
    have e: "b = True" "c = nxt t" "t' = attach t n (Addr a) ?nd" by auto
    have ab: "map_of (children (heap t n)) (Addr a) = None"
      using None by (simp add: lookup_child_def)
    have ne: "n \<noteq> nxt t" using n by simp
    have "wf t'" unfolding e
      by (rule wf_attach[OF w n ab]) (use np in \<open>simp_all add: TreeNode_def\<close>)
    moreover have "colour_step t t'" unfolding e
      by (rule colour_step_attach[OF n ab]) (simp add: TreeNode_def)
    moreover have "no_new_phantom t t'" unfolding e
      using ne by (auto simp: no_new_phantom_def attach_def)
    moreover have "lookup_child t' n (Addr a) = Some c"
      unfolding e using ne by (simp add: lookup_child_attach[OF ne ab])
    moreover have "\<forall>a'. lookup_child t' c (Addr a') = None"
      unfolding e by (simp add: lookup_child_attach[OF ne ab] TreeNode_def)
    moreover have "\<forall>q. q < nxt t \<longrightarrow> sim_try (heap t' q) = sim_try (heap t q)"
      unfolding e using ne by (auto simp: attach_def)
    ultimately show ?thesis by (simp add: e TreeNode_def)
  qed
  then show "wf t'" and "colour_step t t'" and "no_new_phantom t t'"
    and "c < nxt t'" and "\<not> phantom (heap t' c)"
    and "lookup_child t' n (Addr a) = Some c"
    and "\<And>q. q < nxt t \<Longrightarrow> sim_try (heap t' q) = sim_try (heap t q)"
    and "nxt t \<le> c \<Longrightarrow> sim_try (heap t' c) = 0"
    and "b \<longleftrightarrow> nxt t < nxt t' \<or> (c < nxt t \<and> phantom (heap t c))"
    and "\<And>a'. b \<Longrightarrow> lookup_child t' c (Addr a') = None"
    and "nxt t < nxt t' \<Longrightarrow> nxt t \<le> c"
    by blast+
qed


lemma walk_mono:
  assumes "wf t" and "colour_step t t'"
  shows "n < nxt t \<Longrightarrow> walk t n as = Some x \<Longrightarrow> walk t' n as = Some x"
proof (induction as arbitrary: n)
  case Nil
  then show ?case by simp
next
  case (Cons a as)
  from Cons.prems(2) obtain c where c: "lookup_child t n (Addr a) = Some c"
    and r: "walk t c as = Some x"
    by (auto split: option.splits)
  have "lookup_child t' n (Addr a) = Some c"
    using colour_stepD(3)[OF assms(2) Cons.prems(1) c] .
  moreover have "walk t' c as = Some x"
    using Cons.IH[OF wf_child(1)[OF assms(1) Cons.prems(1) c] r] .
  ultimately show ?case by simp
qed

lemma path_clear_mono:
  assumes "wf t" and "colour_step t t'" and "no_new_phantom t t'"
  shows "n < nxt t \<Longrightarrow> path_clear t n as \<Longrightarrow> path_clear t' n as"
proof (induction as arbitrary: n)
  case Nil
  then show ?case by simp
next
  case (Cons a as)
  from Cons.prems(2) obtain c where c: "lookup_child t n (Addr a) = Some c"
    and np: "\<not> phantom (heap t c)" and r: "path_clear t c as"
    by (auto split: option.splits)
  have cn: "c < nxt t" using wf_child(1)[OF assms(1) Cons.prems(1) c] .
  have "lookup_child t' n (Addr a) = Some c"
    using colour_stepD(3)[OF assms(2) Cons.prems(1) c] .
  moreover have "path_clear t' c as" using Cons.IH[OF cn r] .
  moreover have "\<not> phantom (heap t' c)"
    using assms(3) cn np by (auto simp: no_new_phantom_def)
  ultimately show ?case by simp
qed

text \<open>What the loop of \<^verbatim>\<open>integrate_path\<close> does, started on a node that is no phantom.\<close>

lemma integrate_path_loop_effect:
  assumes "wf t" and "n < nxt t" and "\<not> phantom (heap t n)"
    and "integrate_path_loop t n b as = Inr (b', node, t')"
  shows "wf t' \<and> colour_step t t' \<and> no_new_phantom t t'
    \<and> node < nxt t' \<and> \<not> phantom (heap t' node)
    \<and> walk t' n as = Some node \<and> path_clear t' n as
    \<and> (\<forall>q < nxt t. sim_try (heap t' q) = sim_try (heap t q))
    \<and> (nxt t \<le> node \<longrightarrow> sim_try (heap t' node) = 0)
    \<and> (b \<or> nxt t < nxt t' \<longrightarrow> b')
    \<and> (b' \<longrightarrow> b \<or> nxt t < nxt t' \<or> (node < nxt t \<and> sim_try (heap t node) = 0))
    \<and> ((\<forall>a. lookup_child t n (Addr a) = None) \<and> as \<noteq> [] \<longrightarrow> nxt t < nxt t')"
  using assms
proof (induction as arbitrary: t n b)
  case Nil
  then show ?case
    by (auto simp: colour_step_refl no_new_phantom_refl)
next
  case (Cons a as)
  from Cons.prems(4) obtain nb c t1 where m: "match_child t n a = Inr (nb, c, t1)"
    and r: "integrate_path_loop t1 c (b \<or> nb) as = Inr (b', node, t')"
    by (auto split: sum.splits)
  note e = match_child_effect[OF Cons.prems(1-3) m]
  note IH0 = Cons.IH[OF e(1) e(4) e(5) r]
  have i1: "wf t'" and i2: "colour_step t1 t'" and i3: "no_new_phantom t1 t'"
    and i4: "node < nxt t'" and i5: "\<not> phantom (heap t' node)"
    and i6: "walk t' c as = Some node" and i7: "path_clear t' c as"
    and i8: "\<forall>q < nxt t1. sim_try (heap t' q) = sim_try (heap t1 q)"
    and i9: "nxt t1 \<le> node \<longrightarrow> sim_try (heap t' node) = 0"
    and i10: "(b \<or> nb) \<or> nxt t1 < nxt t' \<longrightarrow> b'"
    and i11: "b' \<longrightarrow> (b \<or> nb) \<or> nxt t1 < nxt t'
                \<or> (node < nxt t1 \<and> sim_try (heap t1 node) = 0)"
    and i12: "(\<forall>a. lookup_child t1 c (Addr a) = None) \<and> as \<noteq> [] \<longrightarrow> nxt t1 < nxt t'"
    using IH0 by simp_all
  have n01: "nxt t \<le> nxt t1" using colour_stepD(1)[OF e(2)] .
  have n1': "nxt t1 \<le> nxt t'" using colour_stepD(1)[OF i2] .
  have n1: "n < nxt t1" using Cons.prems(2) n01 by simp
  have cs: "colour_step t t'" using colour_step_trans[OF e(2) i2] .
  have nnp: "no_new_phantom t t'" using no_new_phantom_trans[OF e(3) i3 n01] .
  have l: "lookup_child t' n (Addr a) = Some c"
    using colour_stepD(3)[OF i2 n1 e(6)] .
  have cnp: "\<not> phantom (heap t' c)"
    using i3 e(4) e(5) by (auto simp: no_new_phantom_def)
  have st: "\<forall>q < nxt t. sim_try (heap t' q) = sim_try (heap t q)"
    using i8 e(7) n01 by auto
  have s0: "nxt t \<le> node \<longrightarrow> sim_try (heap t' node) = 0"
  proof
    assume a: "nxt t \<le> node"
    show "sim_try (heap t' node) = 0"
    proof (cases "nxt t1 \<le> node")
      case True
      then show ?thesis using i9 by simp
    next
      case False
      then have nd: "node < nxt t1" by simp
      then have lt: "nxt t < nxt t1" using a by simp
      then have "nxt t \<le> c" using e(11) by simp
      have "sim_try (heap t' node) = sim_try (heap t1 node)" using i8 nd by simp
      moreover have "node = c"
      proof -
        have "nxt t1 = Suc (nxt t)"
        proof (cases "lookup_child t n (Addr a)")
          case None
          from m match_child_new[OF None Cons.prems(2)] show ?thesis by auto
        next
          case (Some c0)
          from m match_child_old[OF Some] lt show ?thesis by auto
        qed
        then have "node = nxt t" using a nd by simp
        moreover have "c = nxt t" using \<open>nxt t \<le> c\<close> e(4) \<open>nxt t1 = Suc (nxt t)\<close> by simp
        ultimately show ?thesis by simp
      qed
      ultimately show ?thesis using e(8) \<open>nxt t \<le> c\<close> by simp
    qed
  qed
  have fwd: "b \<or> nxt t < nxt t' \<longrightarrow> b'"
  proof
    assume "b \<or> nxt t < nxt t'"
    then consider "b" | "nxt t < nxt t1" | "nxt t1 < nxt t'" using n01 n1' by linarith
    then show b' using i10 e(9) by cases auto
  qed
  have bwd: "b' \<longrightarrow> b \<or> nxt t < nxt t' \<or> (node < nxt t \<and> sim_try (heap t node) = 0)"
  proof
    assume b'
    then consider (b) "b" | (nb) "nb" | (gr) "nxt t1 < nxt t'"
      | (z) "node < nxt t1" "sim_try (heap t1 node) = 0"
      using i11 by auto
    then show "b \<or> nxt t < nxt t' \<or> (node < nxt t \<and> sim_try (heap t node) = 0)"
    proof cases
      case b
      then show ?thesis by simp
    next
      case gr
      then show ?thesis using n01 by simp
    next
      case z
      show ?thesis
      proof (cases "node < nxt t")
        case True
        then show ?thesis using z e(7) by simp
      next
        case False
        then show ?thesis using z n1' by simp
      qed
    next
      case nb
      then consider (cr) "nxt t < nxt t1" | (ph) "c < nxt t" "phantom (heap t c)"
        using e(9) by auto
      then show ?thesis
      proof cases
        case cr
        then show ?thesis using n1' by simp
      next
        case ph
        show ?thesis
        proof (cases as)
          case Nil
          then have "node = c" using r by simp
          then show ?thesis using ph wf_phantom(1)[OF Cons.prems(1) ph] by simp
        next
          case (Cons a' as')
          have "\<forall>a'. lookup_child t1 c (Addr a') = None" using e(10) nb by simp
          then have "nxt t1 < nxt t'" using i12 Cons by simp
          then show ?thesis using n01 by simp
        qed
      qed
    qed
  qed
  have cr: "(\<forall>a. lookup_child t n (Addr a) = None) \<longrightarrow> nxt t < nxt t'"
  proof
    assume "\<forall>a. lookup_child t n (Addr a) = None"
    then have None: "lookup_child t n (Addr a) = None" by simp
    from m match_child_new[OF None Cons.prems(2)] have "nxt t1 = Suc (nxt t)" by auto
    then show "nxt t < nxt t'" using n1' by simp
  qed
  have wk: "walk t' n (a # as) = Some node" using l i6 by simp
  have pc: "path_clear t' n (a # as)" using l cnp i7 by simp
  show ?case
    using i1 cs nnp i4 i5 wk pc st s0 fwd bwd cr by (intro conjI) simp_all
qed


lemma same_links_fields:
  assumes "same_links t t'"
  shows "addr (heap t' m) = addr (heap t m)"
    and "parent (heap t' m) = parent (heap t m)"
    and "children (heap t' m) = children (heap t m)"
    and "colour (heap t' m) = colour (heap t m)"
    and "phantom (heap t' m) = phantom (heap t m)"
    and "nxt t' = nxt t" and "ROOT t' = ROOT t"
    and "lookup_child t' m k = lookup_child t m k"
proof -
  have h: "links (heap t' m) = links (heap t m)" "nxt t' = nxt t" "ROOT t' = ROOT t"
    using assms by (simp_all add: same_links_def)
  from h(1) show "addr (heap t' m) = addr (heap t m)"
    and "parent (heap t' m) = parent (heap t m)"
    and c: "children (heap t' m) = children (heap t m)"
    and "colour (heap t' m) = colour (heap t m)"
    and "phantom (heap t' m) = phantom (heap t m)"
    by (simp_all add: links_def)
  show "nxt t' = nxt t" "ROOT t' = ROOT t" by (rule h)+
  show "lookup_child t' m k = lookup_child t m k" using c by (simp add: lookup_child_def)
qed

lemma same_links_refl: "same_links t t"
  by (simp add: same_links_def)

lemma same_links_trans: "same_links t t1 \<Longrightarrow> same_links t1 t2 \<Longrightarrow> same_links t t2"
  by (simp add: same_links_def)

lemma same_shape_links: "same_shape t t' \<Longrightarrow> same_links t t'"
  by (simp add: same_links_def links_def same_shape_fields)

lemma same_links_upd:
  "links (f (heap t n)) = links (heap t n) \<Longrightarrow> same_links t (upd t n f)"
  by (simp add: same_links_def)

lemma colour_step_same_links:
  assumes "same_links t t'" shows "colour_step t t'"
  by (auto simp: colour_step_def same_links_fields[OF assms])

lemma no_new_phantom_same_links:
  assumes "same_links t t'" shows "no_new_phantom t t'"
  by (simp add: no_new_phantom_def same_links_fields[OF assms])

lemma walk_same_links:
  assumes "same_links t t'" shows "walk t' n as = walk t n as"
  by (induction as arbitrary: n) (simp_all add: same_links_fields[OF assms] split: option.splits)

lemma path_clear_same_links:
  assumes "same_links t t'" shows "path_clear t' n as = path_clear t n as"
  by (induction as arbitrary: n) (simp_all add: same_links_fields[OF assms] split: option.splits)

lemma block_children_same_links:
  assumes "same_links t t'" shows "block_children t' n = block_children t n"
  by (simp add: block_children_def children_values_def same_links_fields[OF assms])

subsection \<open>Raising \<open>fully_explored\<close> flags\<close>

lemma only_explored_refl: "only_explored t t"
  by (simp add: only_explored_def)

lemma only_explored_trans:
  "only_explored t t1 \<Longrightarrow> only_explored t1 t2 \<Longrightarrow> only_explored t t2"
  by (simp add: only_explored_def)

lemma only_explored_set: "only_explored t (set_fully_explored t n)"
  by (simp add: only_explored_def set_fully_explored_def)

lemma only_explored_fields:
  assumes "only_explored t t'"
  shows "addr (heap t' m) = addr (heap t m)"
    and "parent (heap t' m) = parent (heap t m)"
    and "children (heap t' m) = children (heap t m)"
    and "colour (heap t' m) = colour (heap t m)"
    and "phantom (heap t' m) = phantom (heap t m)"
    and "state (heap t' m) = state (heap t m)"
    and "samples (heap t' m) = samples (heap t m)"
    and "sel_try (heap t' m) = sel_try (heap t m)"
    and "sel_win (heap t' m) = sel_win (heap t m)"
    and "sim_try (heap t' m) = sim_try (heap t m)"
    and "sim_win (heap t' m) = sim_win (heap t m)"
    and "accumulated_time (heap t' m) = accumulated_time (heap t m)"
proof -
  have h: "(heap t' m)\<lparr>fully_explored := True\<rparr> = (heap t m)\<lparr>fully_explored := True\<rparr>"
    using assms by (simp add: only_explored_def)
  show "addr (heap t' m) = addr (heap t m)" using arg_cong[OF h, of addr] by simp
  show "parent (heap t' m) = parent (heap t m)" using arg_cong[OF h, of parent] by simp
  show "children (heap t' m) = children (heap t m)" using arg_cong[OF h, of children] by simp
  show "colour (heap t' m) = colour (heap t m)" using arg_cong[OF h, of colour] by simp
  show "phantom (heap t' m) = phantom (heap t m)" using arg_cong[OF h, of phantom] by simp
  show "state (heap t' m) = state (heap t m)" using arg_cong[OF h, of state] by simp
  show "samples (heap t' m) = samples (heap t m)" using arg_cong[OF h, of samples] by simp
  show "sel_try (heap t' m) = sel_try (heap t m)" using arg_cong[OF h, of sel_try] by simp
  show "sel_win (heap t' m) = sel_win (heap t m)" using arg_cong[OF h, of sel_win] by simp
  show "sim_try (heap t' m) = sim_try (heap t m)" using arg_cong[OF h, of sim_try] by simp
  show "sim_win (heap t' m) = sim_win (heap t m)" using arg_cong[OF h, of sim_win] by simp
  show "accumulated_time (heap t' m) = accumulated_time (heap t m)"
    using arg_cong[OF h, of accumulated_time] by simp
qed

lemma only_explored_mono:
  "only_explored t t' \<Longrightarrow> fully_explored (heap t m) \<Longrightarrow> fully_explored (heap t' m)"
  by (simp add: only_explored_def)

lemma only_explored_same_shape:
  assumes "only_explored t t'" shows "same_shape t t'"
  using assms by (simp add: same_shape_def shape_def only_explored_fields[OF assms] only_explored_def)

lemma mark_self_only_explored:
  "mark_self t n = Inr t2 \<Longrightarrow> only_explored t t2"
  by (auto simp: mark_self_def Let_def set_fully_explored_def only_explored_def
      split: if_splits option.splits)

lemma mark_fully_explored_only_explored_aux:
  assumes "mark_fully_explored t n = Some y"
  shows "\<forall>t'. y = Inr t' \<longrightarrow> only_explored t t'"
proof (rule mark_fully_explored.raw_induct
    [where P = "\<lambda>t n y. \<forall>t'. y = Inr t' \<longrightarrow> only_explored t t'", OF _ assms])
  fix mfe :: "'a tree \<Rightarrow> nat \<Rightarrow> (error + 'a tree) option" and t n y
  assume IH: "\<And>t n y. mfe t n = Some y \<Longrightarrow> \<forall>t'. y = Inr t' \<longrightarrow> only_explored t t'"
    and body: "(if not_eligible t n then Some (Inr t)
      else case mark_self t n of Inl e \<Rightarrow> Some (Inl e)
           | Inr t2 \<Rightarrow>
               case parent (heap t2 n) of None \<Rightarrow> Some (Inr t2)
               | Some p \<Rightarrow> mfe t2 p) = Some y"
  show "\<forall>t'. y = Inr t' \<longrightarrow> only_explored t t'"
  proof (cases "not_eligible t n")
    case True
    with body show ?thesis by (auto simp: only_explored_refl)
  next
    case False
    show ?thesis
    proof (intro allI impI)
      fix t' assume y: "y = Inr t'"
      with body False obtain t2 where m: "mark_self t n = Inr t2"
        by (auto split: sum.splits option.splits)
      have o: "only_explored t t2" using m by (rule mark_self_only_explored)
      show "only_explored t t'"
      proof (cases "parent (heap t2 n)")
        case None
        with body False m y have "t2 = t'" by simp
        with o show ?thesis by simp
      next
        case (Some p)
        with body False m y have "mfe t2 p = Some (Inr t')" by simp
        then have "only_explored t2 t'" using IH by blast
        with o show ?thesis by (rule only_explored_trans)
      qed
    qed
  qed
qed

lemma mark_fully_explored_only_explored:
  "mark_fully_explored t n = Some (Inr t') \<Longrightarrow> only_explored t t'"
  using mark_fully_explored_only_explored_aux by blast

lemma propagate_selection_path_same_shape_aux:
  assumes "propagate_selection_path t node k = Some t'"
  shows "same_shape t t'"
proof (rule propagate_selection_path.raw_induct
    [where P = "\<lambda>t node k t'. same_shape t t'", OF _ assms])
  fix psp :: "'a tree \<Rightarrow> nat option \<Rightarrow> nat \<Rightarrow> 'a tree option" and t node k t'
  assume IH: "\<And>t node k t'. psp t node k = Some t' \<Longrightarrow> same_shape t t'"
    and body: "(case node of None \<Rightarrow> Some t
      | Some n \<Rightarrow> psp (upd t n (\<lambda>nd. nd\<lparr>sel_try := sel_try nd + k\<rparr>)) (parent (heap t n)) k)
      = Some t'"
  show "same_shape t t'"
  proof (cases node)
    case None
    with body show ?thesis by (simp add: same_shape_refl)
  next
    case (Some n)
    with body have "same_shape (upd t n (\<lambda>nd. nd\<lparr>sel_try := sel_try nd + k\<rparr>)) t'"
      using IH by simp
    moreover have "same_shape t (upd t n (\<lambda>nd. nd\<lparr>sel_try := sel_try nd + k\<rparr>))"
      by (rule same_shape_upd) (simp add: shape_def)
    ultimately show ?thesis using same_shape_trans by blast
  qed
qed


subsection \<open>Expansion\<close>

lemma wf_gold:
  assumes "wf t" and "n < nxt t" and "colour (heap t n) = G"
  shows "sim_win (heap t n) = 0" and "\<not> phantom (heap t n)"
proof -
  have "wf_node t n" using assms(1,2) by (simp add: wf_def)
  then show "sim_win (heap t n) = 0" and "\<not> phantom (heap t n)"
    using assms(3) by (simp_all add: wf_node_def)
qed

lemma wf_upd_sim_try:
  assumes w: "wf t" and n: "n < nxt t" and np: "\<not> phantom (heap t n)"
  shows "wf (upd t n (\<lambda>nd. nd\<lparr>sim_try := g nd\<rparr>))"
  by (rule wf_upd[OF w]) (use np wf_gold[OF w n] in simp_all)

lemma wf_upd_sim_win:
  assumes w: "wf t" and n: "n < nxt t" and ng: "colour (heap t n) \<noteq> G"
  shows "wf (upd t n (\<lambda>nd. nd\<lparr>sim_win := g nd\<rparr>))"
proof (rule wf_upd[OF w])
  assume "phantom ((heap t n)\<lparr>sim_win := g (heap t n)\<rparr>)"
  then have ph: "phantom (heap t n)" by simp
  have wn: "wf_node t n" using w n by (simp add: wf_def)
  have "sim_try (heap t n) = 0" "\<forall>a c. (Addr a, c) \<notin> set (children (heap t n))"
    using wn ph by (simp_all add: wf_node_def)
  moreover have "n \<noteq> ROOT t" using wf_phantom(4)[OF w n ph] .
  ultimately show "n \<noteq> ROOT t \<and> sim_try ((heap t n)\<lparr>sim_win := g (heap t n)\<rparr>) = 0
      \<and> (\<forall>a c. (Addr a, c) \<notin> set (children (heap t n)))"
    by simp
qed (use ng in simp_all)

lemma integrate_path_effect:
  assumes w: "wf t" and i: "integrate_path t trace = Inr (b, t')"
  shows "wf t' \<and> colour_step t t' \<and> no_new_phantom t t'
    \<and> trace \<noteq> [] \<and> path_clear t' (ROOT t') (tl trace)
    \<and> (\<exists>node. walk t' (ROOT t') (tl trace) = Some node \<and> node < nxt t'
           \<and> (b \<longleftrightarrow> nxt t < nxt t' \<or> (node < nxt t \<and> sim_try (heap t node) = 0))
           \<and> 1 \<le> sim_try (heap t' node))"
proof -
  from i obtain a0 rest where tr: "trace = a0 # rest"
    by (cases trace) (auto simp: integrate_path_def)
  let ?f = "\<lambda>nd :: 'a node. nd\<lparr>sim_try := (if sim_try nd \<noteq> 0 then sim_try nd else 1)\<rparr>"
  from i tr obtain b1 node t1 where
    l: "integrate_path_loop t (ROOT t) False rest = Inr (b1, node, t1)"
    and b: "b = (b1 \<or> sim_try (heap t1 node) = 0)"
    and t': "t' = upd t1 node ?f"
    by (auto simp: integrate_path_def split: if_splits sum.splits)
  have r: "ROOT t < nxt t" "\<not> phantom (heap t (ROOT t))" using w by (simp_all add: wf_def)
  note e0 = integrate_path_loop_effect[OF w r l]
  have e1: "wf t1" and e2: "colour_step t t1" and e3: "no_new_phantom t t1"
    and e4: "node < nxt t1" and e5: "\<not> phantom (heap t1 node)"
    and e6: "walk t1 (ROOT t) rest = Some node" and e7: "path_clear t1 (ROOT t) rest"
    and e8: "\<forall>q < nxt t. sim_try (heap t1 q) = sim_try (heap t q)"
    and e9: "nxt t \<le> node \<longrightarrow> sim_try (heap t1 node) = 0"
    and e10: "nxt t < nxt t1 \<longrightarrow> b1"
    and e11: "b1 \<longrightarrow> nxt t < nxt t1 \<or> (node < nxt t \<and> sim_try (heap t node) = 0)"
    using e0 by simp_all
  have sl: "same_links t1 t'" unfolding t' by (rule same_links_upd) (simp add: links_def)
  have rt: "ROOT t' = ROOT t" using colour_stepD(2)[OF e2] by (simp add: t')
  have "wf t'" unfolding t' by (rule wf_upd_sim_try[OF e1 e4 e5])
  moreover have "colour_step t t'"
    using colour_step_trans[OF e2 colour_step_same_links[OF sl]] .
  moreover have "no_new_phantom t t'"
    using no_new_phantom_trans[OF e3 no_new_phantom_same_links[OF sl] colour_stepD(1)[OF e2]] .
  moreover have "path_clear t' (ROOT t') (tl trace)"
    using e7 by (simp add: tr rt path_clear_same_links[OF sl])
  moreover have wk: "walk t' (ROOT t') (tl trace) = Some node"
    using e6 by (simp add: tr rt walk_same_links[OF sl])
  moreover have "node < nxt t'" using e4 by (simp add: t')
  moreover have "1 \<le> sim_try (heap t' node)" by (simp add: t')
  moreover have "b \<longleftrightarrow> nxt t < nxt t' \<or> (node < nxt t \<and> sim_try (heap t node) = 0)"
  proof -
    have nx: "nxt t' = nxt t1" by (simp add: t')
    show ?thesis
    proof (cases "node < nxt t")
      case True
      then show ?thesis using b e8 e10 e11 nx by auto
    next
      case False
      then have "nxt t < nxt t1" using e4 by simp
      then show ?thesis using b e10 nx by auto
    qed
  qed
  ultimately show ?thesis using tr by blast
qed

lemma expansion_effect:
  assumes "wf t" and "expansion t traces = Inr (bs, t')"
  shows "wf t' \<and> colour_step t t' \<and> no_new_phantom t t' \<and> length bs = length traces
    \<and> (\<forall>tr \<in> set traces. tr \<noteq> [] \<and> path_clear t' (ROOT t') (tl tr))"
  using assms
proof (induction traces arbitrary: t bs)
  case Nil
  then show ?case by (auto simp: colour_step_refl no_new_phantom_refl)
next
  case (Cons tr traces)
  from Cons.prems(2) obtain b t1 bs1 where i: "integrate_path t tr = Inr (b, t1)"
    and x: "expansion t1 traces = Inr (bs1, t')" and bs: "bs = b # bs1"
    by (auto split: sum.splits)
  note e0 = integrate_path_effect[OF Cons.prems(1) i]
  have e1: "wf t1" and e2: "colour_step t t1" and e3: "no_new_phantom t t1"
    and e4: "tr \<noteq> []" and e5: "path_clear t1 (ROOT t1) (tl tr)"
    using e0 by simp_all
  note h0 = Cons.IH[OF e1 x]
  have h1: "wf t'" and h2: "colour_step t1 t'" and h3: "no_new_phantom t1 t'"
    and h4: "length bs1 = length traces"
    and h5: "\<forall>tr \<in> set traces. tr \<noteq> [] \<and> path_clear t' (ROOT t') (tl tr)"
    using h0 by simp_all
  have r1: "ROOT t1 < nxt t1" using e1 by (simp add: wf_def)
  have "path_clear t' (ROOT t1) (tl tr)"
    using path_clear_mono[OF e1 h2 h3 r1 e5] .
  then have "path_clear t' (ROOT t') (tl tr)" using colour_stepD(2)[OF h2] by simp
  moreover have "colour_step t t'" using colour_step_trans[OF e2 h2] .
  moreover have "no_new_phantom t t'"
    using no_new_phantom_trans[OF e3 h3 colour_stepD(1)[OF e2]] .
  ultimately show ?case using h1 h4 h5 e4 bs by simp
qed


subsection \<open>Propagation\<close>

lemma record_simulation_effect:
  assumes w: "wf t" and n: "n < nxt t" and np: "\<not> phantom (heap t n)"
    and ng: "colour (heap t n) \<noteq> G"
  shows "wf (record_simulation t n new)" and "same_links t (record_simulation t n new)"
proof -
  let ?t1 = "upd t n (\<lambda>nd. nd\<lparr>sim_win := sim_win nd + (if new then 1 else 0)\<rparr>)"
  let ?t2 = "upd ?t1 n (\<lambda>nd. nd\<lparr>sim_try := sim_try nd + 1\<rparr>)"
  have w1: "wf ?t1" by (rule wf_upd_sim_win[OF w n ng])
  have l1: "same_links t ?t1" by (rule same_links_upd) (simp add: links_def)
  have w2: "wf ?t2" by (rule wf_upd_sim_try[OF w1]) (use n np in simp_all)
  have l2: "same_links ?t1 ?t2" by (rule same_links_upd) (simp add: links_def)
  have l12: "same_links t ?t2" using same_links_trans[OF l1 l2] .
  show "wf (record_simulation t n new)" and "same_links t (record_simulation t n new)"
  proof (atomize (full), cases "lookup_child ?t2 n Simulation")
    case None
    then have "record_simulation t n new = ?t2" by (simp add: record_simulation_def Let_def)
    then show "wf (record_simulation t n new) \<and> same_links t (record_simulation t n new)"
      using w2 l12 by simp
  next
    case (Some s)
    then have e: "record_simulation t n new = upd ?t2 s (\<lambda>nd. nd\<lparr>sim_try := sim_try nd + 1\<rparr>)"
      by (simp add: record_simulation_def Let_def)
    have n2: "n < nxt ?t2" using n by simp
    have s: "s < nxt ?t2" using wf_child(1)[OF w2 n2 Some] .
    have "colour (heap ?t2 s) = G" using wf_child(4)[OF w2 n2 Some] by simp
    then have np2: "\<not> phantom (heap ?t2 s)" using wf_gold(2)[OF w2 s] by simp
    have "wf (upd ?t2 s (\<lambda>nd. nd\<lparr>sim_try := sim_try nd + 1\<rparr>))"
      by (rule wf_upd_sim_try[OF w2 s np2])
    moreover have "same_links ?t2 (upd ?t2 s (\<lambda>nd. nd\<lparr>sim_try := sim_try nd + 1\<rparr>))"
      by (rule same_links_upd) (simp add: links_def)
    ultimately show "wf (record_simulation t n new) \<and> same_links t (record_simulation t n new)"
      using same_links_trans[OF l12] e by simp
  qed
qed

lemma propagate_execution_trace_loop_effect:
  assumes "wf t" and "n < nxt t" and "path_clear t n as"
    and "propagate_execution_trace_loop t n new as = Inr (x, t')"
  shows "wf t' \<and> same_links t t' \<and> x < nxt t'"
  using assms
proof (induction as arbitrary: t n)
  case Nil
  then show ?case by (simp add: same_links_refl)
next
  case (Cons a as)
  from Cons.prems(3) obtain c where c: "lookup_child t n (Addr a) = Some c"
    and np: "\<not> phantom (heap t c)" and pc: "path_clear t c as"
    by (auto split: option.splits)
  let ?t1 = "record_simulation t c new"
  have r: "propagate_execution_trace_loop ?t1 c new as = Inr (x, t')"
    using Cons.prems(4) c by simp
  have cn: "c < nxt t" using wf_child(1)[OF Cons.prems(1,2) c] .
  have cg: "colour (heap t c) \<noteq> G" using wf_child(5)[OF Cons.prems(1,2) c] by simp
  note e = record_simulation_effect[OF Cons.prems(1) cn np cg, of new]
  have c1: "c < nxt ?t1" using cn same_links_fields(6)[OF e(2)] by simp
  have pc1: "path_clear ?t1 c as" using pc by (simp add: path_clear_same_links[OF e(2)])
  note h = Cons.IH[OF e(1) c1 pc1 r]
  then show ?case using same_links_trans[OF e(2)] by blast
qed

lemma propagate_execution_trace_effect:
  assumes w: "wf t" and pc: "path_clear t (ROOT t) (tl trace)"
    and p: "propagate_execution_trace t trace new = Some (Inr t')"
  shows "wf t'" and "same_links t t'"
proof -
  from p obtain a0 rest where tr: "trace = a0 # rest"
    by (cases trace) (auto simp: propagate_execution_trace_def)
  let ?t0 = "record_simulation t (ROOT t) new"
  from p tr obtain x t1 where
    l: "propagate_execution_trace_loop ?t0 (ROOT t) new rest = Inr (x, t1)"
    and m: "mark_fully_explored t1 x = Some (Inr t')"
    by (auto simp: propagate_execution_trace_def split: if_splits sum.splits)
  have r: "ROOT t < nxt t" "\<not> phantom (heap t (ROOT t))" "colour (heap t (ROOT t)) \<noteq> G"
    using w by (simp_all add: wf_def)
  note e = record_simulation_effect[OF w r, of new]
  have r0: "ROOT t < nxt ?t0" using r(1) same_links_fields(6)[OF e(2)] by simp
  have pc0: "path_clear ?t0 (ROOT t) rest"
    using pc tr by (simp add: path_clear_same_links[OF e(2)])
  note f = propagate_execution_trace_loop_effect[OF e(1) r0 pc0 l]
  have o: "only_explored t1 t'" using mark_fully_explored_only_explored[OF m] .
  have ss: "same_shape t1 t'" using only_explored_same_shape[OF o] .
  show "wf t'" using f by (simp add: wf_same_shape[OF ss])
  have "same_links t t1" using same_links_trans[OF e(2)] f by blast
  then show "same_links t t'" using same_links_trans same_shape_links[OF ss] by blast
qed

lemma propagate_execution_traces_loop_effect:
  assumes "wf t" and "\<forall>tr \<in> set (map fst zs). path_clear t (ROOT t) (tl tr)"
    and "propagate_execution_traces_loop t zs = Some (Inr t')"
  shows "wf t' \<and> same_links t t'"
  using assms
proof (induction zs arbitrary: t)
  case Nil
  then show ?case by (simp add: same_links_refl)
next
  case (Cons z zs)
  obtain trace new where z: "z = (trace, new)" by (cases z)
  from Cons.prems(3) z obtain t1 where
    p: "propagate_execution_trace t trace new = Some (Inr t1)"
    and r: "propagate_execution_traces_loop t1 zs = Some (Inr t')"
    by (auto split: option.splits sum.splits)
  have pc: "path_clear t (ROOT t) (tl trace)" using Cons.prems(2) z by simp
  note e = propagate_execution_trace_effect[OF Cons.prems(1) pc p]
  have "\<forall>tr \<in> set (map fst zs). path_clear t1 (ROOT t1) (tl tr)"
    using Cons.prems(2) by (simp add: path_clear_same_links[OF e(2)] same_links_fields(7)[OF e(2)])
  from Cons.IH[OF e(1) this r] show ?case using same_links_trans[OF e(2)] by blast
qed

lemma propagation_effect:
  assumes w: "wf t" and pc: "\<forall>tr \<in> set traces. path_clear t (ROOT t) (tl tr)"
    and p: "propagation t n traces are_new = Some (Inr t')"
  shows "wf t'" and "same_links t t'"
proof -
  from p obtain t1 where s: "propagate_selection_path t (Some n) (length are_new) = Some t1"
    and x: "propagate_execution_traces t1 traces are_new = Some (Inr t')"
    by (auto simp: propagation_def split: option.splits)
  have ss: "same_shape t t1" using propagate_selection_path_same_shape_aux[OF s] .
  have sl: "same_links t t1" using same_shape_links[OF ss] .
  have w1: "wf t1" using w by (simp add: wf_same_shape[OF ss])
  from x have len: "length traces = length are_new"
    and l: "propagate_execution_traces_loop t1 (zip traces are_new) = Some (Inr t')"
    by (auto simp: propagate_execution_traces_def split: if_splits)
  have "\<forall>tr \<in> set (map fst (zip traces are_new)). path_clear t1 (ROOT t1) (tl tr)"
    using pc len by (simp add: path_clear_same_links[OF sl] same_links_fields(7)[OF sl])
  from propagate_execution_traces_loop_effect[OF w1 this l]
  show "wf t'" and "same_links t t'" using same_links_trans[OF sl] by blast+
qed


subsection \<open>The colouring protocol\<close>

lemma dye_R_no_new_phantom:
  assumes d: "dye t n R st smp = Inr t'" and n: "n < nxt t"
  shows "no_new_phantom t t'" and "nxt t' = Suc (nxt t)"
    and "colour (heap t' n) = R" and "lookup_child t' n Simulation = Some (nxt t)"
    and "sim_try (heap t' n) = sim_try (heap t n)"
    and "lookup_child t' n (Addr a) = lookup_child t n (Addr a)"
proof -
  note r = dye_R[OF d n]
  have ne: "n \<noteq> nxt t" using n by simp
  have ab: "map_of (children (heap (upd t n (\<lambda>nd. nd\<lparr>colour := R\<rparr>)) n)) Simulation = None"
    using r(3) by (simp add: lookup_child_def)
  have ne1: "n \<noteq> nxt (upd t n (\<lambda>nd. nd\<lparr>colour := R\<rparr>))" using ne by simp
  show "no_new_phantom t t'"
    unfolding r(4) no_new_phantom_def using ne by (auto simp: attach_def)
  show "nxt t' = Suc (nxt t)" unfolding r(4) by simp
  show "colour (heap t' n) = R" unfolding r(4) using ne by (simp add: attach_def)
  show "lookup_child t' n Simulation = Some (nxt t)"
    unfolding r(4) using ne by (simp add: lookup_child_attach[OF ne1 ab])
  show "sim_try (heap t' n) = sim_try (heap t n)"
    unfolding r(4) using ne by (simp add: attach_def)
  show "lookup_child t' n (Addr a) = lookup_child t n (Addr a)"
    unfolding r(4) using ne by (simp add: lookup_child_attach[OF ne1 ab]) (simp add: lookup_child_def)
qed


lemma add_phantom_effect:
  assumes w: "wf t" and p: "p < nxt t" and np: "\<not> phantom (heap t p)"
    and a: "add_phantom eng t p st = Inr t'"
  shows "wf t'" and "colour_step t t'" and "no_new_phantom t t'"
    and "lookup_child t' p (Addr (st_addr eng st)) = Some (nxt t)"
    and "colour (heap t' (nxt t)) = R"
    and "lookup_child t p (Addr (st_addr eng st)) = None"
proof -
  let ?a = "st_addr eng st"
  let ?t2 = "attach t p (Addr ?a) (TreeNode ?a (Some p) :: 'a node)"
  let ?c = "nxt t"
  have none: "lookup_child t p (Addr ?a) = None"
  proof (rule ccontr)
    assume "lookup_child t p (Addr ?a) \<noteq> None"
    then have "add_phantom eng t p st = Inl AssertionError"
      by (simp add: add_phantom_def Let_def)
    with a show False by simp
  qed
  show "lookup_child t p (Addr (st_addr eng st)) = None" by (rule none)
  have ab: "map_of (children (heap t p)) (Addr ?a) = None"
    using none by (simp add: lookup_child_def)
  have ne: "p \<noteq> nxt t" "nxt t \<noteq> p" using p by simp_all
  define t1 where "t1 = snd (alloc t (TreeNode ?a (Some p) :: 'a node))"
  have al: "alloc t (TreeNode ?a (Some p)) = (nxt t, t1)"
    by (simp add: alloc_def t1_def)
  have ac: "add_child t1 p (Addr ?a) (nxt t) = Inr ?t2"
    using ne ab
    by (simp add: t1_def alloc_def add_child_def TreeNode_def attach_def upd_def update_absent
        fun_eq_iff)
  have l2: "lookup_child ?t2 p (Addr ?a) = Some ?c"
    using ne by (simp add: lookup_child_attach[OF ne(1) ab])
  from a none al ac l2 obtain t3 where d: "dye ?t2 ?c R (Some st) None = Inr t3"
    and e: "(case lookup_child t3 p (Addr ?a) of None \<Rightarrow> Inl KeyError
             | Some c'' \<Rightarrow> Inr (upd t3 c'' (\<lambda>nd. nd\<lparr>phantom := True\<rparr>))) = Inr t'"
    by (simp add: add_phantom_def Let_def split: sum.splits)
  have w2: "wf ?t2"
    by (rule wf_attach[OF w p ab]) (use np in \<open>simp_all add: TreeNode_def\<close>)
  have c2: "colour_step t ?t2"
    by (rule colour_step_attach[OF p ab]) (simp add: TreeNode_def)
  have n2: "no_new_phantom t ?t2" using ne by (auto simp: no_new_phantom_def attach_def)
  have cn2: "?c < nxt ?t2" by simp
  have w3: "wf t3" and c3: "colour_step ?t2 t3" using dye_R_wf[OF w2 cn2 d] by blast+
  note q = dye_R_no_new_phantom[OF d cn2]
  have p2: "p < nxt ?t2" using p by simp
  have l3: "lookup_child t3 p (Addr ?a) = Some ?c" using colour_stepD(3)[OF c3 p2 l2] .
  have t': "t' = upd t3 ?c (\<lambda>nd. nd\<lparr>phantom := True\<rparr>)" using e l3 by simp
  have r3: "ROOT t3 = ROOT t" using colour_stepD(2)[OF c3] by simp
  have rlt: "ROOT t < nxt t" using w by (simp add: wf_def)
  have st0: "sim_try (heap t3 ?c) = 0" using q(5) by (simp add: TreeNode_def)
  have noad: "\<forall>a' c. (Addr a', c) \<notin> set (children (heap t3 ?c))"
  proof (intro allI notI)
    fix a' c assume "(Addr a', c) \<in> set (children (heap t3 ?c))"
    moreover have "wf_node t3 ?c" using w3 q(2) by (simp add: wf_def)
    then have "distinct (map fst (children (heap t3 ?c)))" by (simp add: wf_node_def)
    ultimately have "lookup_child t3 ?c (Addr a') = Some c"
      by (simp add: lookup_child_def)
    then show False using q(6)[of a'] by (simp add: lookup_child_attach[OF ne(1) ab] TreeNode_def)
  qed
  show "wf t'" unfolding t'
    by (rule wf_upd[OF w3]) (use q(3) r3 rlt st0 noad in auto)
  have c4: "colour_step t3 t'" unfolding t' by (rule colour_step_upd) simp_all
  show "colour_step t t'" using colour_step_trans[OF colour_step_trans[OF c2 c3] c4] .
  show "no_new_phantom t t'"
    using n2 q(1) by (auto simp: t' no_new_phantom_def)
  show "lookup_child t' p (Addr (st_addr eng st)) = Some (nxt t)"
    using l3 ne by (simp add: t' lookup_child_def)
  show "colour (heap t' (nxt t)) = R" using q(3) by (simp add: t')
qed


lemma wf_block_children:
  assumes w: "wf t" and p: "p < nxt t" and c: "c \<in> set (block_children t p)"
  shows "c < nxt t" and "colour (heap t c) \<noteq> G"
    and "lookup_child t p (Addr (addr (heap t c))) = Some c"
proof -
  have wn: "wf_node t p" using w p by (simp add: wf_def)
  from c obtain k where kc: "(k, c) \<in> set (children (heap t p))"
    and ng: "colour (heap t c) \<noteq> G"
    by (auto simp: block_children_def children_values_def)
  have old: "p < c \<and> c < nxt t \<and> parent (heap t c) = Some p
     \<and> (k = Simulation \<longrightarrow> colour (heap t c) = G)
     \<and> (\<forall>a. k = Addr a \<longrightarrow> colour (heap t c) \<noteq> G \<and> addr (heap t c) = a)"
    using wn kc unfolding wf_node_def by blast
  show "c < nxt t" using old by simp
  show "colour (heap t c) \<noteq> G" by (rule ng)
  have k: "k = Addr (addr (heap t c))" using old ng by (cases k) simp_all
  have d: "distinct (map fst (children (heap t p)))" using wn by (simp add: wf_node_def)
  show "lookup_child t p (Addr (addr (heap t c))) = Some c"
    using map_of_is_SomeI[OF d kc] k by (simp add: lookup_child_def)
qed

lemma lookup_block_children:
  assumes "lookup_child t p (Addr a) = Some c" and "colour (heap t c) \<noteq> G"
  shows "c \<in> set (block_children t p)"
proof -
  have "(Addr a, c) \<in> set (children (heap t p))"
    using assms(1) by (simp add: lookup_child_def map_of_SomeD)
  then have "c \<in> snd ` set (children (heap t p))" by force
  then show ?thesis using assms(2) by (simp add: block_children_def children_values_def)
qed

lemma match_node_states_effect:
  assumes "wf t" and "\<forall>c \<in> set cs. c < nxt t"
    and "match_node_states eng t st cs = Inr (matched, t')"
  shows "wf t' \<and> colour_step t t' \<and> no_new_phantom t t'
    \<and> (matched \<longrightarrow> (\<exists>c \<in> set cs. addr (heap t c) = st_addr eng st \<and> colour (heap t' c) = R))
    \<and> (\<not> matched \<longrightarrow> t' = t)"
  using assms
proof (induction cs)
  case Nil
  then show ?case by (auto simp: colour_step_refl no_new_phantom_refl)
next
  case (Cons c cs)
  show ?case
  proof (cases "addr (heap t c) \<noteq> st_addr eng st")
    case True
    then have "match_node_states eng t st cs = Inr (matched, t')" using Cons.prems(3) by simp
    from Cons.IH[OF Cons.prems(1) _ this] Cons.prems(2) show ?thesis by auto
  next
    case False
    then obtain d: "dye t c R (Some st) None = Inr t'" and m: "matched"
      using Cons.prems(3) by (auto split: sum.splits)
    have cn: "c < nxt t" using Cons.prems(2) by simp
    have "wf t'" "colour_step t t'" using dye_R_wf[OF Cons.prems(1) cn d] by blast+
    moreover note q = dye_R_no_new_phantom[OF d cn]
    ultimately show ?thesis using m False q(1) q(3) by auto
  qed
qed

lemma dye_siblings_loop_effect:
  assumes "wf t" and "p < nxt t" and "\<not> phantom (heap t p)"
    and "dye_siblings_loop eng t p sts = Inr t'"
  shows "wf t' \<and> colour_step t t' \<and> no_new_phantom t t'
    \<and> (\<forall>st \<in> set sts. \<exists>c. lookup_child t' p (Addr (st_addr eng st)) = Some c
            \<and> c < nxt t' \<and> colour (heap t' c) = R)"
  using assms
proof (induction sts arbitrary: t)
  case Nil
  then show ?case by (auto simp: colour_step_refl no_new_phantom_refl)
next
  case (Cons st sts)
  let ?a = "st_addr eng st"
  from Cons.prems(4) obtain matched t1 where
    m: "match_node_states eng t st (block_children t p) = Inr (matched, t1)"
    by (auto split: sum.splits)
  have bc: "\<forall>c \<in> set (block_children t p). c < nxt t"
    using wf_block_children(1)[OF Cons.prems(1,2)] by blast
  note e0 = match_node_states_effect[OF Cons.prems(1) bc m]
  have e1: "wf t1" and e2: "colour_step t t1" and e3: "no_new_phantom t t1"
    and e4: "matched \<longrightarrow> (\<exists>c \<in> set (block_children t p).
                addr (heap t c) = ?a \<and> colour (heap t1 c) = R)"
    and e5: "\<not> matched \<longrightarrow> t1 = t"
    using e0 by simp_all
  have "\<exists>t2. dye_siblings_loop eng t2 p sts = Inr t' \<and> wf t2 \<and> colour_step t t2
      \<and> no_new_phantom t t2
      \<and> (\<exists>c. lookup_child t2 p (Addr ?a) = Some c \<and> c < nxt t2 \<and> colour (heap t2 c) = R)"
  proof (cases matched)
    case True
    then have r: "dye_siblings_loop eng t1 p sts = Inr t'" using Cons.prems(4) m by simp
    from True e4 obtain c where c: "c \<in> set (block_children t p)"
      and ca: "addr (heap t c) = ?a" and cr: "colour (heap t1 c) = R"
      by blast
    have "lookup_child t p (Addr ?a) = Some c"
      using wf_block_children(3)[OF Cons.prems(1,2) c] ca by simp
    then have "lookup_child t1 p (Addr ?a) = Some c"
      using colour_stepD(3)[OF e2 Cons.prems(2)] by simp
    moreover have "c < nxt t1"
      using wf_block_children(1)[OF Cons.prems(1,2) c] colour_stepD(1)[OF e2] by simp
    ultimately show ?thesis using r e1 e2 e3 cr by blast
  next
    case False
    then have t1: "t1 = t" using e5 by simp
    from False Cons.prems(4) m t1 obtain t2 where
      a: "add_phantom eng t p st = Inr t2" and r: "dye_siblings_loop eng t2 p sts = Inr t'"
      by (auto split: sum.splits)
    note f = add_phantom_effect[OF Cons.prems(1,2,3) a]
    have "nxt t < nxt t2"
      using wf_child(1)[OF f(1) _ f(4)] Cons.prems(2) colour_stepD(1)[OF f(2)] by simp
    then show ?thesis using r f by blast
  qed
  then obtain t2 c where r: "dye_siblings_loop eng t2 p sts = Inr t'" and w2: "wf t2"
    and c2: "colour_step t t2" and n2: "no_new_phantom t t2"
    and l2: "lookup_child t2 p (Addr ?a) = Some c" and cn: "c < nxt t2"
    and cr: "colour (heap t2 c) = R"
    by blast
  have p2: "p < nxt t2" using Cons.prems(2) colour_stepD(1)[OF c2] by simp
  have np2: "\<not> phantom (heap t2 p)"
    using n2 Cons.prems(2,3) by (auto simp: no_new_phantom_def)
  note h0 = Cons.IH[OF w2 p2 np2 r]
  have h1: "wf t'" and h2: "colour_step t2 t'" and h3: "no_new_phantom t2 t'"
    and h4: "\<forall>st \<in> set sts. \<exists>c. lookup_child t' p (Addr (st_addr eng st)) = Some c
            \<and> c < nxt t' \<and> colour (heap t' c) = R"
    using h0 by simp_all
  have "lookup_child t' p (Addr ?a) = Some c" using colour_stepD(3)[OF h2 p2 l2] .
  moreover have "colour (heap t' c) = R" using colour_stepD(5)[OF h2 cn] cr by simp
  moreover have "c < nxt t'" using cn colour_stepD(1)[OF h2] by simp
  moreover have "colour_step t t'" using colour_step_trans[OF c2 h2] .
  moreover have "no_new_phantom t t'"
    using no_new_phantom_trans[OF n2 h3 colour_stepD(1)[OF c2]] .
  ultimately show ?case using h1 h4 by auto
qed


lemma wf_parent:
  assumes w: "wf t" and c: "c < nxt t" and p: "parent (heap t c) = Some p"
    and ng: "colour (heap t c) \<noteq> G"
  shows "p < c" and "lookup_child t p (Addr (addr (heap t c))) = Some c"
    and "\<not> phantom (heap t p)" and "c \<in> set (block_children t p)"
proof -
  have wc: "wf_node t c" using w c by (simp add: wf_def)
  then have pc: "p < c" and mem: "c \<in> snd ` set (children (heap t p))"
    using p by (simp_all add: wf_node_def)
  show "p < c" by (rule pc)
  have pn: "p < nxt t" using pc c by simp
  show bc: "c \<in> set (block_children t p)"
    using mem ng by (simp add: block_children_def children_values_def)
  show l: "lookup_child t p (Addr (addr (heap t c))) = Some c"
    using wf_block_children(3)[OF w pn bc] .
  show "\<not> phantom (heap t p)"
    using wf_phantom(2)[OF w pn, of "addr (heap t c)"] l by auto
qed

text \<open>What \<^verbatim>\<open>dye_siblings\<close> does on a White node, by the size of the successor set.\<close>

lemma dye_siblings_effect:
  assumes w: "wf t" and c: "c < nxt t" and cw: "colour (heap t c) = W"
    and d: "dye_siblings eng t c = Some (Inr t')"
  shows "wf t' \<and> colour_step t t'
    \<and> (\<exists>p ss. parent (heap t c) = Some p \<and> symex_to_match eng t c = Some (Inr ss)
          \<and> (ss = [] \<longrightarrow> colour (heap t' c) = W \<and> fully_explored (heap t' c))
          \<and> (length ss = 1 \<longrightarrow> colour (heap t' c) = B \<and> state (heap t' c) = Some (last ss))
          \<and> (1 < length ss \<longrightarrow> colour (heap t' c) = R
                \<and> (\<forall>s \<in> set (block_children t' p). colour (heap t' s) = R)
                \<and> (\<forall>st \<in> set ss. \<exists>x. lookup_child t' p (Addr (st_addr eng st)) = Some x
                       \<and> colour (heap t' x) = R)))"
proof -
  from d obtain ss where s: "symex_to_match eng t c = Some (Inr ss)"
    by (auto simp: dye_siblings_def split: option.splits sum.splits)
  from d s obtain p where p: "parent (heap t c) = Some p"
    by (auto simp: dye_siblings_def split: option.splits)
  have ng: "colour (heap t c) \<noteq> G" using cw by simp
  note wp = wf_parent[OF w c p ng]
  have pn: "p < nxt t" using wp(1) c by simp
  consider (empty) "ss = []" | (one) "length ss = 1" | (many) "1 < length ss"
    by (cases ss) (auto simp: less_Suc_eq_0_disj)
  then show ?thesis
  proof cases
    case empty
    then have m: "mark_fully_explored (set_fully_explored t c) p = Some (Inr t')"
      using d s p by (simp add: dye_siblings_def)
    have o: "only_explored t t'"
      using only_explored_trans[OF only_explored_set mark_fully_explored_only_explored[OF m]] .
    have ss: "same_shape t t'" using only_explored_same_shape[OF o] .
    have "fully_explored (heap (set_fully_explored t c) c)" by (simp add: set_fully_explored_def)
    then have "fully_explored (heap t' c)"
      using only_explored_mono[OF mark_fully_explored_only_explored[OF m]] by simp
    moreover have "colour (heap t' c) = W" using cw by (simp add: only_explored_fields[OF o])
    moreover have "wf t'" using w by (simp add: wf_same_shape[OF ss])
    moreover have "colour_step t t'" using colour_step_same_shape[OF ss] .
    ultimately show ?thesis using p s empty by simp
  next
    case one
    then have ne: "ss \<noteq> []" by auto
    from d s p one ne have dy: "dye t c B (Some (last ss)) None = Inr t'"
      by (auto simp: dye_siblings_def Let_def split: if_splits)
    note e = dye_plain_wf[OF w c dy refl]
    have "colour (heap t' c) = B" "state (heap t' c) = Some (last ss)" by (simp_all add: e(3))
    then show ?thesis using e(1,2) p s one ne by simp
  next
    case many
    then have ne: "ss \<noteq> []" "length ss \<noteq> 1" by auto
    from d s p ne obtain l: "dye_siblings_loop eng t p ss = Inr t'"
      and al: "list_all (\<lambda>s. colour (heap t' s) = R) (block_children t' p)"
      by (auto simp: dye_siblings_def split: sum.splits if_splits)
    note e0 = dye_siblings_loop_effect[OF w pn wp(3) l]
    have e1: "wf t'" and e2: "colour_step t t'"
      and e4: "\<forall>st \<in> set ss. \<exists>x. lookup_child t' p (Addr (st_addr eng st)) = Some x
            \<and> x < nxt t' \<and> colour (heap t' x) = R"
      using e0 by simp_all
    have "lookup_child t' p (Addr (addr (heap t c))) = Some c"
      using colour_stepD(3)[OF e2 pn wp(2)] .
    moreover have "colour (heap t' c) \<noteq> G" using colour_stepD(6)[OF e2 c ng] .
    ultimately have "c \<in> set (block_children t' p)" by (rule lookup_block_children)
    then have "colour (heap t' c) = R" using al by (simp add: list_all_iff)
    moreover have "\<forall>s \<in> set (block_children t' p). colour (heap t' s) = R"
      using al by (simp add: list_all_iff)
    ultimately show ?thesis using e1 e2 e4 p s many by auto
  qed
qed

subsection \<open>Sampling\<close>

lemma app_fuzzing_effect:
  assumes "app_fuzzing eng g t n = Some (Inr (results, t'))"
  shows "same_shape t t'"
    and "accumulated_time (heap t' m) = accumulated_time (heap t m)"
proof -
  from assms obtain st where st: "state (heap t n) = Some st"
    by (auto simp: app_fuzzing_def split: option.splits)
  let ?items = "case samples (heap t n) of None \<Rightarrow> iterate eng st | Some its \<Rightarrow> its"
  from assms st obtain rest exhausted where
    l: "app_fuzzing_loop g ((stdin_bits eng st + 7) div 8) ?items [] = Inr (results, rest, exhausted)"
    by (auto simp: app_fuzzing_def Let_def split: sum.splits option.splits if_splits)
  let ?t1 = "upd t n (\<lambda>nd. nd\<lparr>samples := Some rest\<rparr>)"
  have s1: "same_shape t ?t1" by (rule same_shape_upd) (simp add: shape_def)
  have a1: "accumulated_time (heap ?t1 m) = accumulated_time (heap t m)" by simp
  show "same_shape t t'" and "accumulated_time (heap t' m) = accumulated_time (heap t m)"
  proof (atomize (full), cases exhausted)
    case False
    then have "t' = ?t1" using assms st l by (simp add: app_fuzzing_def Let_def)
    then show "same_shape t t' \<and> accumulated_time (heap t' m) = accumulated_time (heap t m)"
      using s1 by simp
  next
    case True
    then have mk: "mark_fully_explored (set_fully_explored ?t1 n) n = Some (Inr t')"
      using assms st l by (auto simp: app_fuzzing_def Let_def split: option.splits sum.splits)
    have o: "only_explored ?t1 t'"
      using only_explored_trans[OF only_explored_set mark_fully_explored_only_explored[OF mk]] .
    have "same_shape t t'" using same_shape_trans[OF s1 only_explored_same_shape[OF o]] .
    moreover have "accumulated_time (heap t' m) = accumulated_time (heap t m)"
      using only_explored_fields(12)[OF o, of m] a1 by simp
    ultimately show "same_shape t t' \<and> accumulated_time (heap t' m) = accumulated_time (heap t m)"
      by simp
  qed
qed

lemma mutate_effect:
  assumes "mutate eng tape g t n = Some (Inr (mutants, g', t'))"
  shows "same_shape t t'"
    and "accumulated_time (heap t' m) = accumulated_time (heap t m)"
proof -
  let ?g1 = "g\<lparr>SOLVING_COUNT := SOLVING_COUNT g + 1\<rparr>"
  have "t' = t \<or> (\<exists>results. app_fuzzing eng ?g1 t n = Some (Inr (results, t')))"
    using assms by (auto simp: mutate_def Let_def split: if_splits option.splits sum.splits)
  then show "same_shape t t'" and "accumulated_time (heap t' m) = accumulated_time (heap t m)"
    using app_fuzzing_effect same_shape_refl by blast+
qed


subsection \<open>Every state of a run satisfies the invariant\<close>

lemma step_effect:
  assumes s: "step eng t t'" and w: "wf t"
  shows "wf t'" and "colour_step t t'"
  using s
proof (atomize (full), cases rule: step.cases)
  case (step_leaf n)
  have ss: "same_shape t t'"
    using only_explored_same_shape[OF mark_fully_explored_only_explored[OF step_leaf(3)]] .
  show "wf t' \<and> colour_step t t'"
    using w colour_step_same_shape[OF ss] by (simp add: wf_same_shape[OF ss])
next
  case (step_dye c)
  show "wf t' \<and> colour_step t t'"
    using dye_siblings_effect[OF w step_dye(1,2,3)] by simp
next
  case (step_childless n p)
  have o: "only_explored t t'"
    using only_explored_trans[OF only_explored_set
        mark_fully_explored_only_explored[OF step_childless(4)]] .
  have ss: "same_shape t t'" using only_explored_same_shape[OF o] .
  show "wf t' \<and> colour_step t t'"
    using w colour_step_same_shape[OF ss] by (simp add: wf_same_shape[OF ss])
next
  case (step_mutate n tape g mutants g')
  have ss: "same_shape t t'" using mutate_effect(1)[OF step_mutate(2)] .
  show "wf t' \<and> colour_step t t'"
    using w colour_step_same_shape[OF ss] by (simp add: wf_same_shape[OF ss])
next
  case (step_update n traces are_new t1)
  note e0 = expansion_effect[OF w step_update(2)]
  have e1: "wf t1" and e2: "colour_step t t1"
    and e5: "\<forall>tr \<in> set traces. path_clear t1 (ROOT t1) (tl tr)"
    using e0 by simp_all
  note f = propagation_effect[OF e1 e5 step_update(3)]
  show "wf t' \<and> colour_step t t'"
    using f(1) colour_step_trans[OF e2 colour_step_same_links[OF f(2)]] by simp
qed

lemma wf_node_plain: "heap t n = TreeNode a None \<Longrightarrow> wf_node t n"
  by (simp add: wf_node_def TreeNode_def)

lemma wf_node_ROOT_update: "wf_node (t\<lparr>ROOT := r\<rparr>) n = wf_node t n"
  by (simp add: wf_node_def)

lemma init_root_wf:
  assumes i: "init_root eng initial_tree traces = Inr t"
  shows "wf t"
proof -
  let ?t0 = "initial_tree :: 'a tree"
  from i obtain a t2 where
    d: "dye (snd (alloc ?t0 (TreeNode a None))) 1 R (Some (blank_state eng a)) None = Inr t2"
    and t: "t = t2\<lparr>ROOT := 1\<rparr>"
    by (auto simp: init_root_def Let_def alloc_def initial_tree_def split: if_splits sum.splits)
  let ?t1 = "snd (alloc ?t0 (TreeNode a None))"
  have w1: "wf ?t1"
    unfolding wf_def
  proof (intro conjI allI impI)
    show "ROOT ?t1 < nxt ?t1" by (simp add: initial_tree_def)
    show "colour (heap ?t1 (ROOT ?t1)) \<noteq> G" by (simp add: initial_tree_def TreeNode_def)
    show "\<not> phantom (heap ?t1 (ROOT ?t1))" by (simp add: initial_tree_def TreeNode_def)
    fix n assume "n < nxt ?t1"
    show "wf_node ?t1 n"
    proof (cases "n = 1")
      case True
      show ?thesis by (rule wf_node_plain[of _ _ a]) (simp add: True initial_tree_def)
    next
      case False
      then have "n \<noteq> Suc 0" by simp
      then show ?thesis by (intro wf_node_plain[of _ _ "- 1"]) (simp add: initial_tree_def)
    qed
  qed
  have n1: "(1::nat) < nxt ?t1" by (simp add: initial_tree_def)
  have w2: "wf t2" using dye_R_wf(1)[OF w1 n1 d] .
  note q = dye_R_no_new_phantom[OF d n1]
  have nx: "nxt t2 = 3" using q(2) by (simp add: initial_tree_def)
  have np: "\<not> phantom (heap t2 1)"
    using q(1) n1 by (auto simp: no_new_phantom_def initial_tree_def TreeNode_def)
  have "\<forall>n < nxt t2. wf_node t2 n" using w2 by (simp add: wf_def)
  then have "\<forall>n < nxt t. wf_node t n" by (simp add: t wf_node_ROOT_update)
  moreover have "ROOT t < nxt t" using nx by (simp add: t)
  moreover have "colour (heap t (ROOT t)) \<noteq> G" using q(3) by (simp add: t)
  moreover have "\<not> phantom (heap t (ROOT t))" using np by (simp add: t)
  ultimately show ?thesis unfolding wf_def by blast
qed

lemma reachable_wf: "reachable eng t \<Longrightarrow> wf t"
proof (induction rule: reachable.induct)
  case (reach_init traces t)
  then show ?case by (rule init_root_wf)
next
  case (reach_step t t')
  then show ?case using step_effect(1) by blast
qed


section \<open>The runner\<close>

lemma map_result_Inr:
  "(\<And>x. x \<in> set xs \<Longrightarrow> f x = Inr (h x)) \<Longrightarrow> map_result f xs = Inr (map h xs)"
  by (induction xs) auto

lemma uint_horner_bound:
  "0 \<le> horner_sum uint (256::int) (bs :: byte list)
   \<and> horner_sum uint (256::int) bs < 256 ^ length bs"
proof (induction bs)
  case Nil
  show ?case by simp
next
  case (Cons b bs)
  have "uint b < 256" using uint_lt2p[of b] by simp
  moreover have "0 \<le> uint b" by simp
  ultimately show ?case using Cons by auto
qed

lemma horner_unsigned_le:
  "horner_sum uint (256::int) (bs :: byte list) = int (unsigned_le bs)"
  by (simp add: horner_sum_eq_sum unsigned_le_def)

lemma signed_take_bit_63:
  fixes n :: int
  assumes "0 \<le> n" "n < 2 ^ 64"
  shows "signed_take_bit 63 n = (if n < 2 ^ 63 then n else n - 2 ^ 64)"
proof (cases "n < 2 ^ 63")
  case True
  then have "(n + 2 ^ 63) mod 2 ^ 64 = n + 2 ^ 63"
    using assms by (intro mod_pos_pos_trivial) simp_all
  then show ?thesis using True
    by (simp add: signed_take_bit_eq_take_bit_shift take_bit_eq_mod)
next
  case False
  have "(n + 2 ^ 63) mod 2 ^ 64 = ((n - 2 ^ 63) + 1 * 2 ^ 64) mod 2 ^ 64"
    by (rule arg_cong[where f = "\<lambda>x. x mod 2 ^ 64"]) simp
  also have "\<dots> = (n - 2 ^ 63) mod 2 ^ 64"
    by (rule mod_mult_self1)
  also have "\<dots> = n - 2 ^ 63"
    using assms False by (intro mod_pos_pos_trivial) simp_all
  finally show ?thesis using False
    by (simp add: signed_take_bit_eq_take_bit_shift take_bit_eq_mod)
qed

lemma decode_le:
  fixes bs :: "byte list"
  assumes "length bs = 8"
  shows "sint (word_rcat (rev bs) :: 64 word) = signed64 (unsigned_le bs)"
proof -
  let ?n = "horner_sum uint (256::int) bs"
  have b: "0 \<le> ?n" "?n < 2 ^ 64" using uint_horner_bound[of bs] assms by simp_all
  have u: "uint (word_of_int ?n :: 64 word) = ?n"
    using b by (simp add: uint_word_of_int take_bit_eq_mod)
  have "sint (word_rcat (rev bs) :: 64 word) = signed_take_bit 63 ?n"
    using u by (simp add: word_rcat_def sint_uint)
  also have "\<dots> = (if ?n < 2 ^ 63 then ?n else ?n - 2 ^ 64)"
    using b by (rule signed_take_bit_63)
  finally show ?thesis
    by (simp add: signed64_def horner_unsigned_le)
qed

lemma sum_upto_8:
  fixes f :: "nat \<Rightarrow> 'a :: comm_monoid_add"
  shows "(\<Sum>k = 0 ..< 8. f k) = f 0 + f 1 + f 2 + f 3 + f 4 + f 5 + f 6 + f 7"
  by (simp add: eval_nat_numeral add.assoc)

lemma unsigned_le_8:
  assumes "length bs = 8"
  shows "unsigned_le bs = (\<Sum>k = 0 ..< 8. unat (bs ! k) * 256 ^ k)"
  using assms by (simp add: unsigned_le_def)

lemma unpack_from_q_le:
  assumes "8 * i + 8 \<le> length output"
  shows "unpack_from_q LittleEndian output (i * 8)
         = Inr (signed64 (chunk_value LittleEndian output i))"
proof -
  let ?bs = "take 8 (drop (i * 8) output)"
  have len: "length ?bs = 8" using assms by simp
  have "unsigned_le ?bs = (\<Sum>k = 0 ..< 8. unat (?bs ! k) * 256 ^ k)"
    by (rule unsigned_le_8[OF len])
  also have "\<dots> = (\<Sum>k = 0 ..< 8. unat (output ! (8 * i + k)) * 256 ^ k)"
    using assms by (intro sum.cong) (simp_all add: mult.commute)
  finally have "unsigned_le ?bs = chunk_value LittleEndian output i"
    by (simp add: chunk_value_def)
  then show ?thesis
    using assms decode_le[OF len] by (simp add: unpack_from_q_def)
qed

lemma unpack_from_q_be:
  assumes "8 * i + 8 \<le> length output"
  shows "unpack_from_q BigEndian output (i * 8)
         = Inr (signed64 (chunk_value BigEndian output i))"
proof -
  let ?bs = "take 8 (drop (i * 8) output)"
  have len: "length ?bs = 8" using assms by simp
  have lenr: "length (rev ?bs) = 8" using len by simp
  have "unsigned_le (rev ?bs) = (\<Sum>k = 0 ..< 8. unat (rev ?bs ! k) * 256 ^ k)"
    by (rule unsigned_le_8[OF lenr])
  also have "\<dots> = (\<Sum>k = 0 ..< 8. unat (output ! (8 * i + (7 - k))) * 256 ^ k)"
  proof (rule sum.cong)
    fix k assume "k \<in> {0 ..< 8 :: nat}"
    then have k: "k < 8" by simp
    then have "rev ?bs ! k = ?bs ! (7 - k)"
      using len by (simp add: rev_nth)
    also have "\<dots> = output ! (8 * i + (7 - k))"
      using assms k by (simp add: mult.commute)
    finally show "unat (rev ?bs ! k) * 256 ^ k = unat (output ! (8 * i + (7 - k))) * 256 ^ k"
      by simp
  qed simp
  finally have v: "unsigned_le (rev ?bs) = chunk_value BigEndian output i"
    by (simp add: chunk_value_def)
  have "sint (word_rcat ?bs :: 64 word) = signed64 (unsigned_le (rev ?bs))"
    using decode_le[OF lenr] by simp
  then show ?thesis
    using assms v by (simp add: unpack_from_q_def)
qed

lemma unpack_decodes:
  "unpack bo output =
     (if length output mod 8 = 0
      then Inr (map (\<lambda>i. signed64 (chunk_value bo output i)) [0 ..< length output div 8])
      else Inl AssertionError)"
proof (cases "length output mod 8 = 0")
  case False
  then show ?thesis by (simp add: unpack_def)
next
  case True
  have "map_result (\<lambda>i. unpack_from_q bo output (i * 8)) [0 ..< length output div 8]
        = Inr (map (\<lambda>i. signed64 (chunk_value bo output i)) [0 ..< length output div 8])"
  proof (rule map_result_Inr)
    fix i assume "i \<in> set [0 ..< length output div 8]"
    then have "i < length output div 8" by simp
    then have "8 * i + 8 \<le> length output" by simp
    then show "unpack_from_q bo output (i * 8) = Inr (signed64 (chunk_value bo output i))"
      using unpack_from_q_le unpack_from_q_be by (cases bo) simp_all
  qed
  then show ?thesis using True by (simp add: unpack_def)
qed

text \<open>
  Claim C8, as the code has it.  \<^verbatim>\<open>binary_execute\<close> runs the binary on the input and
  returns the decoding of what the binary wrote to standard error: when the length of
  that stream is a multiple of 8, one integer per 8 bytes, element \<open>i\<close> being the two's
  complement (signed) reading of the value of bytes \<open>8i .. 8i+7\<close> in the byte order of
  the host; it also sets \<open>FOUND_BUG\<close> when the return code is \<open>BUG_RET\<close>.  A stream whose
  length is not a multiple of 8 fails the assertion, and a run that exceeds the timeout
  ends the process with exit code 2.
\<close>

theorem binary_execute_decodes_stderr:
  "binary_execute bo run g input_bytes =
     (case run input_bytes of
        None \<Rightarrow> Inl (SystemExit 2)
      | Some rep \<Rightarrow>
          (if length (stderr_msg rep) mod 8 = 0
           then Inr (map (\<lambda>i. signed64 (chunk_value bo (stderr_msg rep) i))
                       [0 ..< length (stderr_msg rep) div 8],
                     if returncode rep = BUG_RET g then g\<lparr>FOUND_BUG := True\<rparr> else g)
           else Inl AssertionError))"
  by (simp add: binary_execute_def unpack_decodes Let_def split: option.splits)

theorem binary_execute_decodes_stderr_witness:
  "binary_execute LittleEndian (constant_binary [1, 2, 0, 0, 0, 0, 0, 0] 0) default_globals []
     = Inr ([513], default_globals)
   \<and> binary_execute BigEndian (constant_binary [1, 2, 0, 0, 0, 0, 0, 0] 0) default_globals []
     = Inr ([72620543991349248], default_globals)
   \<and> binary_execute LittleEndian (constant_binary [1, 2, 3] 0) default_globals []
     = Inl AssertionError
   \<and> binary_execute LittleEndian hanging_binary default_globals [] = Inl (SystemExit 2)"
  using binary_execute_decodes_stderr
          [of LittleEndian "constant_binary [1, 2, 0, 0, 0, 0, 0, 0] 0" default_globals "[]"]
        binary_execute_decodes_stderr
          [of BigEndian "constant_binary [1, 2, 0, 0, 0, 0, 0, 0] 0" default_globals "[]"]
        binary_execute_decodes_stderr
          [of LittleEndian "constant_binary [1, 2, 3] 0" default_globals "[]"]
        binary_execute_decodes_stderr [of LittleEndian hanging_binary default_globals "[]"]
  by (simp add: constant_binary_def hanging_binary_def default_globals_def signed64_def
      chunk_value_def sum_upto_8)

text \<open>
  Claim C8 as stated fails in two ways.  A stream of eight bytes \<open>0xFF\<close> is returned as
  the trace \<open>[-1]\<close>, while its unsigned little-endian value is \<open>2^64 - 1\<close>: the decoding
  is signed.  On a big-endian host the stream \<open>01 00 00 00 00 00 00 00\<close> is returned as
  \<open>[2^56]\<close>, while its little-endian value is \<open>1\<close>: the byte order is the host's.
\<close>

theorem binary_execute_unsigned_little_endian_counterexample:
  "binary_execute LittleEndian
       (constant_binary [255, 255, 255, 255, 255, 255, 255, 255] 0) default_globals []
     = Inr ([- 1], default_globals)
   \<and> int (unsigned_le [255, 255, 255, 255, 255, 255, 255, 255]) = 18446744073709551615
   \<and> binary_execute BigEndian (constant_binary [1, 0, 0, 0, 0, 0, 0, 0] 0) default_globals []
     = Inr ([72057594037927936], default_globals)
   \<and> int (unsigned_le [1, 0, 0, 0, 0, 0, 0, 0]) = 1"
  by (simp add: binary_execute_def constant_binary_def default_globals_def unpack_def
      unpack_from_q_def word_rcat_def unsigned_le_def)


section \<open>The example run\<close>

lemma run_init_eq: "init_root fork_engine initial_tree [[10, 20]] = Inr run_init"
proof -
  have "\<not> isl (init_root fork_engine initial_tree [[10, 20]] :: error + nat tree)"
    by code_simp
  then show ?thesis by (simp add: run_init_def)
qed

lemma run_expanded_eq: "expansion run_init [[10, 20]] = Inr (fst run_expanded, snd run_expanded)"
proof -
  have "\<not> isl (expansion run_init [[10, 20]])" by code_simp
  then show ?thesis by (simp add: run_expanded_def)
qed

lemma run_propagated_eq:
  "propagation (snd run_expanded) 2 [[10, 20]] (fst run_expanded) = Some (Inr run_propagated)"
proof -
  have "propagation (snd run_expanded) 2 [[10, 20]] (fst run_expanded) \<noteq> None"
    and "\<not> isl (the (propagation (snd run_expanded) 2 [[10, 20]] (fst run_expanded)))"
    by code_simp+
  then show ?thesis by (auto simp: run_propagated_def)
qed

lemma run_dyed_eq: "dye_siblings fork_engine run_propagated 3 = Some (Inr run_dyed)"
proof -
  have "dye_siblings fork_engine run_propagated 3 \<noteq> None"
    and "\<not> isl (the (dye_siblings fork_engine run_propagated 3))"
    by code_simp+
  then show ?thesis by (auto simp: run_dyed_def)
qed

lemma run_init_reachable: "reachable fork_engine run_init"
  by (rule reach_init[OF run_init_eq])

lemma run_propagated_reachable: "reachable fork_engine run_propagated"
proof -
  have "2 < nxt run_init" by code_simp
  then have "step fork_engine run_init run_propagated"
    using run_expanded_eq run_propagated_eq by (rule step_update)
  then show ?thesis using run_init_reachable reach_step by blast
qed

lemma run_dyed_reachable: "reachable fork_engine run_dyed"
proof -
  have "3 < nxt run_propagated" and "colour (heap run_propagated 3) = W" by code_simp+
  then have "step fork_engine run_propagated run_dyed"
    using run_dyed_eq by (rule step_dye)
  then show ?thesis using run_propagated_reachable reach_step by blast
qed

lemma run_sampled_eq:
  "app_fuzzing fork_engine default_globals run_dyed 4 = Some (Inr (fst run_sampled, snd run_sampled))"
proof -
  have "app_fuzzing fork_engine default_globals run_dyed 4 \<noteq> None"
    and "\<not> isl (the (app_fuzzing fork_engine default_globals run_dyed 4))"
    by code_simp+
  then show ?thesis by (auto simp: run_sampled_def)
qed

lemma run_mutated_eq:
  "mutate fork_engine zero_tape default_globals run_dyed 4
   = Some (Inr (fst run_mutated, fst (snd run_mutated), snd (snd run_mutated)))"
proof -
  have "mutate fork_engine zero_tape default_globals run_dyed 4 \<noteq> None"
    and "\<not> isl (the (mutate fork_engine zero_tape default_globals run_dyed 4))"
    by code_simp+
  then show ?thesis by (auto simp: run_mutated_def)
qed


section \<open>\<^verbatim>\<open>TreeNode.score\<close>\<close>

text \<open>
  Claim C4.  \<^verbatim>\<open>score\<close> returns minus infinity for every node that is fully explored;
  plus infinity for every node that is not fully explored and was never selected
  (\<open>sel_try = 0\<close>); and plus infinity for the root (the node without a parent) when it
  is not fully explored.
\<close>

theorem score_special_values:
  "(fully_explored (heap t n) \<longrightarrow> score g t n = Inr MInf)
   \<and> (\<not> fully_explored (heap t n) \<and> sel_try (heap t n) = 0 \<longrightarrow> score g t n = Inr PInf)
   \<and> (\<not> fully_explored (heap t n) \<and> is_root t n \<longrightarrow> score g t n = Inr PInf)"
  by (simp add: score_def is_root_def Let_def)

theorem score_special_values_witness:
  "fully_explored (heap score_tree 2) \<and> score default_globals score_tree 2 = Inr MInf
   \<and> \<not> fully_explored (heap score_tree 3) \<and> sel_try (heap score_tree 3) = 0
   \<and> score default_globals score_tree 3 = Inr PInf
   \<and> \<not> fully_explored (heap score_tree 0) \<and> is_root score_tree 0
   \<and> sel_try (heap score_tree 0) = 2 \<and> score default_globals score_tree 0 = Inr PInf"
  using score_special_values [of score_tree 2 default_globals]
        score_special_values [of score_tree 3 default_globals]
        score_special_values [of score_tree 0 default_globals]
  by (simp add: score_tree_def TreeNode_def is_root_def)

subsection \<open>The divisor of the average constraint-solving time\<close>

text \<open>
  The divisor is \<open>\<lceil>log\<^sub>2 MIN_SAMPLES + sel_try - 1\<rceil>\<close> as it stands: for \<open>MIN_SAMPLES \<ge> 1\<close>
  and \<open>sel_try \<ge> 1\<close> it is zero, and the division raises, exactly when both are 1.
\<close>

lemma average_constraint_solving_time_raises:
  assumes "1 \<le> MIN_SAMPLES g" and "1 \<le> sel_try self"
  shows "average_constraint_solving_time g self = Inl ZeroDivisionError
         \<longleftrightarrow> MIN_SAMPLES g = 1 \<and> sel_try self = 1"
proof -
  let ?l = "log 2 (real_of_int (MIN_SAMPLES g))"
  have l0: "0 \<le> ?l" using assms(1) by simp
  have "?l \<le> 0 \<longleftrightarrow> real_of_int (MIN_SAMPLES g) \<le> 1"
    using assms(1) by (intro log_le_zero_cancel_iff) simp_all
  then have l1: "?l = 0 \<longleftrightarrow> MIN_SAMPLES g = 1"
    using l0 assms(1) by linarith
  have s: "1 \<le> real (sel_try self)" using assms(2) by simp
  have "\<lceil>?l + real (sel_try self) - 1\<rceil> = 0
        \<longleftrightarrow> - 1 < ?l + real (sel_try self) - 1 \<and> ?l + real (sel_try self) - 1 \<le> 0"
    using ceiling_eq_iff [of "?l + real (sel_try self) - 1" 0] by simp
  also have "\<dots> \<longleftrightarrow> ?l = 0 \<and> real (sel_try self) = 1"
    using l0 s by linarith
  finally have "\<lceil>?l + real (sel_try self) - 1\<rceil> = 0 \<longleftrightarrow> ?l = 0 \<and> sel_try self = 1"
    by simp
  with l1 show ?thesis
    using assms(1) by (auto simp: average_constraint_solving_time_def Let_def)
qed

lemma run_propagated_gold:
  "colour (heap run_propagated 2) = G \<and> \<not> fully_explored (heap run_propagated 2)
   \<and> sel_try (heap run_propagated 2) = 1 \<and> sim_try (heap run_propagated 2) = 1
   \<and> parent (heap run_propagated 2) = Some 1 \<and> sel_try (heap run_propagated 1) = 1"
  by code_simp

text \<open>
  Claim C5 fails on the code.  With \<open>MIN_SAMPLES = 1\<close>, the tree right after
  \<^verbatim>\<open>initialisation\<close> on one trace has the Gold child of the root (handle 2) selected
  once, with a parent selected once, and not fully explored; \<^verbatim>\<open>score\<close> of that node, the
  first one \<^verbatim>\<open>best_child\<close> scores, raises \<^verbatim>\<open>ZeroDivisionError\<close>: the source divides by
  \<open>\<lceil>log\<^sub>2 1 + 1 - 1\<rceil> = 0\<close>, with no lower bound of 1 on the divisor.
\<close>

theorem score_divides_by_zero:
  "reachable fork_engine run_propagated
   \<and> \<not> is_root run_propagated 2 \<and> \<not> fully_explored (heap run_propagated 2)
   \<and> sel_try (heap run_propagated 2) = 1
   \<and> score (default_globals\<lparr>MIN_SAMPLES := 1\<rparr>) run_propagated 2 = Inl ZeroDivisionError"
  using run_propagated_reachable run_propagated_gold
  by (simp add: score_def is_root_def Let_def time_penalisation_def
      average_constraint_solving_time_def default_globals_def)


section \<open>The sampler and the simulation step\<close>

text \<open>
  Claim C6 fails on the code.  A node is created with \<open>accumulated_time = 0\<close>, and
  neither \<^verbatim>\<open>app_fuzzing\<close> nor \<^verbatim>\<open>mutate\<close> changes the \<open>accumulated_time\<close> of any node: the
  source reads no clock there and never assigns the field, so the field is the same
  after a sampling call however long the call took.
\<close>

theorem sampler_keeps_accumulated_time:
  "accumulated_time (TreeNode a p :: 'st node) = 0
   \<and> (app_fuzzing eng g t n = Some (Inr (results, t'))
        \<longrightarrow> accumulated_time (heap t' m) = accumulated_time (heap (t :: 'st tree) m))
   \<and> (mutate eng tape g t n = Some (Inr (mutants, g', t''))
        \<longrightarrow> accumulated_time (heap t'' m) = accumulated_time (heap t m))"
  using app_fuzzing_effect(2) [of eng g t n results t' m]
        mutate_effect(2) [of eng tape g t n mutants g' t'' m]
  by (simp add: TreeNode_def)

lemma run_sampled_values:
  "colour (heap run_dyed 4) = G
   \<and> fst run_sampled = [[65], [66], [67], [68], [69]]
   \<and> fst run_mutated = [[65], [66], [67], [68], [69]]
   \<and> samples (heap (snd run_sampled) 4) = Some [Some 70]"
  by code_simp

theorem sampler_keeps_accumulated_time_witness:
  "reachable fork_engine run_dyed \<and> colour (heap run_dyed 4) = G
   \<and> app_fuzzing fork_engine default_globals run_dyed 4
       = Some (Inr ([[65], [66], [67], [68], [69]], snd run_sampled))
   \<and> accumulated_time (heap (snd run_sampled) 4) = accumulated_time (heap run_dyed 4)
   \<and> mutate fork_engine zero_tape default_globals run_dyed 4
       = Some (Inr ([[65], [66], [67], [68], [69]], fst (snd run_mutated), snd (snd run_mutated)))
   \<and> accumulated_time (heap (snd (snd run_mutated)) 4) = accumulated_time (heap run_dyed 4)"
  using sampler_keeps_accumulated_time
          [of undefined undefined fork_engine default_globals run_dyed 4
              "fst run_sampled" "snd run_sampled" 4 zero_tape
              "fst run_mutated" "fst (snd run_mutated)" "snd (snd run_mutated)"]
        run_sampled_eq run_mutated_eq run_sampled_values run_dyed_reachable
  by simp

subsection \<open>The batch of inputs of \<^verbatim>\<open>simulation\<close>\<close>

text \<open>Once \<open>FOUND_BUG\<close> is set, the comprehension executes no input at all.\<close>

lemma execute_mutants_found_bug:
  "FOUND_BUG g \<Longrightarrow> execute_mutants bo run g mutants = Inr ([], g)"
  by (induction mutants) simp_all

text \<open>The flag \<open>COVERAGE_ONLY\<close> has no part in what the comprehension executes.\<close>

lemma execute_mutants_coverage_only:
  "execute_mutants bo run (g\<lparr>COVERAGE_ONLY := b\<rparr>) mutants
   = (case execute_mutants bo run g mutants of
        Inl e \<Rightarrow> Inl e
      | Inr (traces, g') \<Rightarrow> Inr (traces, g'\<lparr>COVERAGE_ONLY := b\<rparr>))"
proof (induction mutants arbitrary: g)
  case Nil
  then show ?case by simp
next
  case (Cons mutant mutants)
  have be: "binary_execute bo run (g\<lparr>COVERAGE_ONLY := b\<rparr>) mutant
            = (case binary_execute bo run g mutant of
                 Inl e \<Rightarrow> Inl e
               | Inr (trace, g') \<Rightarrow> Inr (trace, g'\<lparr>COVERAGE_ONLY := b\<rparr>))"
    by (simp add: binary_execute_def Let_def split: option.splits sum.splits)
  show ?case
    by (simp add: be Cons.IH split: sum.splits prod.splits)
qed

text \<open>
  Claim C7 fails on the code.  In coverage-only mode, \<^verbatim>\<open>simulation\<close> on three seeds of
  which the second returns the bug code executes the first two and not the third: the
  traces are those of the inputs \<open>[1]\<close> and \<open>[2]\<close>, and \<open>FOUND_BUG\<close> is set.  The filter
  of the comprehension reads \<open>FOUND_BUG\<close> alone.  A later batch in the same mode
  executes nothing.
\<close>

theorem simulation_stops_in_coverage_only_mode:
  "COVERAGE_ONLY coverage_globals \<and> SEEDS coverage_globals = [[1], [2], [3]]
   \<and> simulation fork_engine zero_tape LittleEndian (crashing_binary [2]) coverage_globals
        (initial_tree :: nat tree) None
     = Some (Inr ([[1], [2]], coverage_globals\<lparr>FOUND_BUG := True\<rparr>, initial_tree))
   \<and> simulation fork_engine zero_tape LittleEndian (crashing_binary [2])
        (coverage_globals\<lparr>FOUND_BUG := True\<rparr>) (initial_tree :: nat tree) None
     = Some (Inr ([], coverage_globals\<lparr>FOUND_BUG := True\<rparr>, initial_tree))"
  by (simp add: simulation_def coverage_globals_def default_globals_def crashing_binary_def
      binary_execute_def unpack_def unpack_from_q_def word_rcat_def)


section \<open>Colours, Gold nodes and new paths along a run\<close>

lemma expansion_append:
  "expansion t (pre @ post) =
     (case expansion t pre of
        Inl e \<Rightarrow> Inl e
      | Inr (bs1, t1) \<Rightarrow>
          (case expansion t1 post of
             Inl e \<Rightarrow> Inl e
           | Inr (bs2, t2) \<Rightarrow> Inr (bs1 @ bs2, t2)))"
  by (induction pre arbitrary: t) (auto split: sum.splits prod.splits)



text \<open>
  Claim C9.  For every operation of a run, from a tree the run has reached: no handle
  disappears and the root stays the same; a node that is not White keeps its colour,
  so Red, Black and Gold nodes never change colour; a White node stays White or becomes
  Red or Black; every node keeps its parent and every child it had under the same key,
  so no node is removed; and a Gold node that is new is the \<^verbatim>\<open>'Simulation'\<close> child of a
  Red node that was White before the operation or is new itself (a phantom).  \<^verbatim>\<open>dye\<close>
  constructs the \<^verbatim>\<open>'Simulation'\<close> child and dyes it Gold within the call that dyes its
  parent Red, so no operation leaves a tree in which that child is not Gold.
\<close>

theorem colours_follow_semilattice:
  assumes "reachable eng t" and "step eng t t'"
  shows "nxt t \<le> nxt t' \<and> ROOT t' = ROOT t
    \<and> (\<forall>n < nxt t.
          (colour (heap t n) \<noteq> W \<longrightarrow> colour (heap t' n) = colour (heap t n))
          \<and> (colour (heap t n) = W \<longrightarrow> colour (heap t' n) \<in> {W, R, B})
          \<and> parent (heap t' n) = parent (heap t n)
          \<and> (\<forall>k c. lookup_child t n k = Some c \<longrightarrow> lookup_child t' n k = Some c))
    \<and> (\<forall>m. nxt t \<le> m \<and> m < nxt t' \<and> colour (heap t' m) = G \<longrightarrow>
          (\<exists>n < nxt t'. lookup_child t' n Simulation = Some m \<and> colour (heap t' n) = R
                \<and> (n < nxt t \<longrightarrow> colour (heap t n) = W)))"
proof -
  have "colour_step t t'" using step_effect(2)[OF assms(2) reachable_wf[OF assms(1)]] .
  then show ?thesis unfolding colour_step_def by auto
qed

lemma run_colours:
  "nxt run_propagated = 4 \<and> nxt run_dyed = 7
   \<and> colour (heap run_propagated 1) = R \<and> colour (heap run_dyed 1) = R
   \<and> colour (heap run_propagated 2) = G \<and> colour (heap run_dyed 2) = G
   \<and> colour (heap run_propagated 3) = W \<and> colour (heap run_dyed 3) = R
   \<and> colour (heap run_dyed 4) = G \<and> lookup_child run_dyed 3 Simulation = Some 4
   \<and> colour (heap run_dyed 5) = R \<and> colour (heap run_dyed 6) = G
   \<and> lookup_child run_dyed 5 Simulation = Some 6"
  by code_simp

theorem colours_follow_semilattice_witness:
  "reachable fork_engine run_propagated \<and> step fork_engine run_propagated run_dyed
   \<and> nxt run_propagated = 4 \<and> nxt run_dyed = 7
   \<and> colour (heap run_propagated 1) = R \<and> colour (heap run_dyed 1) = R
   \<and> colour (heap run_propagated 2) = G \<and> colour (heap run_dyed 2) = G
   \<and> colour (heap run_propagated 3) = W \<and> colour (heap run_dyed 3) = R
   \<and> colour (heap run_dyed 4) = G \<and> lookup_child run_dyed 3 Simulation = Some 4
   \<and> colour (heap run_dyed 5) = R \<and> colour (heap run_dyed 6) = G
   \<and> lookup_child run_dyed 5 Simulation = Some 6"
proof -
  have "3 < nxt run_propagated" and "colour (heap run_propagated 3) = W"
    using run_colours by simp_all
  then have s: "step fork_engine run_propagated run_dyed"
    using run_dyed_eq by (rule step_dye)
  show ?thesis
    using colours_follow_semilattice[OF run_propagated_reachable s]
      run_propagated_reachable s run_colours by simp
qed




text \<open>
  Claim C3.  Let a batch of traces be expanded from a tree of a run, and take any trace
  of the batch, after the traces \<open>pre\<close> and before the traces \<open>post\<close>.  With \<open>t1\<close> the tree
  when the integration of the trace starts and \<open>t2\<close> the tree when it ends, the walk
  from the root along the trace ends on a node; the flag reported for the trace is true
  if and only if a node was created (handles are given out in order, so \<open>nxt\<close> grew) or
  the terminal node existed in \<open>t1\<close> with \<open>sim_try = 0\<close>; and \<open>sim_try\<close> of the terminal
  node is at least 1 in \<open>t2\<close>.
\<close>

theorem integrate_path_reports_new_path:
  assumes "reachable eng t" and "expansion t (pre @ trace # post) = Inr (are_new, t')"
  shows "\<exists>t1 t2 node.
      expansion t pre = Inr (take (length pre) are_new, t1)
      \<and> integrate_path t1 trace = Inr (are_new ! length pre, t2)
      \<and> expansion t2 post = Inr (drop (Suc (length pre)) are_new, t')
      \<and> walk t2 (ROOT t2) (tl trace) = Some node
      \<and> (are_new ! length pre
           \<longleftrightarrow> nxt t1 < nxt t2 \<or> (node < nxt t1 \<and> sim_try (heap t1 node) = 0))
      \<and> 1 \<le> sim_try (heap t2 node)"
proof -
  from assms(2) obtain bs1 t1 bs' where p: "expansion t pre = Inr (bs1, t1)"
    and x: "expansion t1 (trace # post) = Inr (bs', t')" and a: "are_new = bs1 @ bs'"
    by (auto simp: expansion_append split: sum.splits prod.splits)
  from x obtain b t2 bs2 where i: "integrate_path t1 trace = Inr (b, t2)"
    and q: "expansion t2 post = Inr (bs2, t')" and b: "bs' = b # bs2"
    by (auto split: sum.splits prod.splits)
  have w: "wf t" using reachable_wf[OF assms(1)] .
  have e: "wf t1 \<and> length bs1 = length pre" using expansion_effect[OF w p] by simp
  then have w1: "wf t1" and l: "length bs1 = length pre" by simp_all
  from integrate_path_effect[OF w1 i] obtain node where
    n: "walk t2 (ROOT t2) (tl trace) = Some node"
    "b \<longleftrightarrow> nxt t1 < nxt t2 \<or> (node < nxt t1 \<and> sim_try (heap t1 node) = 0)"
    "1 \<le> sim_try (heap t2 node)"
    by blast
  have "take (length pre) are_new = bs1" "are_new ! length pre = b"
    "drop (Suc (length pre)) are_new = bs2"
    using a b l by (simp_all add: nth_append)
  then show ?thesis using p i q n by blast
qed


lemma run_batch_eq:
  "expansion run_dyed [[10, 20], [10, 30], [10, 30, 50]] = Inr (fst run_batch, snd run_batch)"
proof -
  have "\<not> isl (expansion run_dyed [[10, 20], [10, 30], [10, 30, 50]])" by code_simp
  then show ?thesis by (simp add: run_batch_def)
qed

lemma run_batch_second_eq:
  "integrate_path (snd run_batch_first) [10, 30]
   = Inr (fst run_batch_second, snd run_batch_second)"
proof -
  have "\<not> isl (integrate_path (snd run_batch_first) [10, 30])" by code_simp
  then show ?thesis by (simp add: run_batch_second_def)
qed

lemma run_batch_values:
  "fst run_batch = [False, True, True] \<and> fst run_batch_second
   \<and> nxt (snd run_batch_first) = 7 \<and> nxt (snd run_batch_second) = 7
   \<and> nxt (snd run_batch) = 8
   \<and> walk (snd run_batch_second) (ROOT (snd run_batch_second)) [30] = Some 5
   \<and> phantom (heap (snd run_batch_first) 5) \<and> \<not> phantom (heap (snd run_batch_second) 5)
   \<and> sim_try (heap (snd run_batch_first) 5) = 0
   \<and> sim_try (heap (snd run_batch_second) 5) = 1"
  by code_simp

theorem integrate_path_reports_new_path_witness:
  "reachable fork_engine run_dyed
   \<and> expansion run_dyed [[10, 20], [10, 30], [10, 30, 50]]
       = Inr ([False, True, True], snd run_batch)
   \<and> integrate_path (snd run_batch_first) [10, 30] = Inr (True, snd run_batch_second)
   \<and> nxt (snd run_batch_first) = 7 \<and> nxt (snd run_batch_second) = 7
   \<and> walk (snd run_batch_second) (ROOT (snd run_batch_second)) [30] = Some 5
   \<and> sim_try (heap (snd run_batch_first) 5) = 0
   \<and> sim_try (heap (snd run_batch_second) 5) = 1"
  using integrate_path_reports_new_path
          [of fork_engine run_dyed "[[10, 20]]" "[10, 30]" "[[10, 30, 50]]"
              "fst run_batch" "snd run_batch"]
        run_dyed_reachable run_batch_eq run_batch_second_eq run_batch_values
  by simp


section \<open>The rules of \<^verbatim>\<open>mark_fully_explored\<close>\<close>

lemma mark_self_marks:
  assumes "mark_self t n = Inr t2"
  shows "fully_explored (heap t2 n)"
    and "colour (heap t n) = R \<Longrightarrow>
           \<exists>s. lookup_child t n Simulation = Some s \<and> fully_explored (heap t2 s)"
    and "fully_explored (heap t2 m) \<Longrightarrow> \<not> fully_explored (heap t m) \<Longrightarrow>
           m = n \<or> (colour (heap t n) = R \<and> lookup_child t n Simulation = Some m)"
  using assms
  by (auto simp: mark_self_def Let_def set_fully_explored_def lookup_child_def
      split: if_splits option.splits)

lemma only_explored_lookups:
  assumes "only_explored t t2"
  shows "block_children t2 m = block_children t m"
    and "lookup_child t2 m k = lookup_child t m k"
  by (simp_all add: block_children_def children_values_def lookup_child_def
      only_explored_fields[OF assms])

lemma marked_by_rule_only_explored:
  assumes "only_explored t t2"
  shows "marked_by_rule t2 t' m = marked_by_rule t t' m"
  by (simp add: marked_by_rule_def only_explored_fields[OF assms]
      only_explored_lookups[OF assms])

text \<open>
  One level of the recursion: from an eligible node, the marks of the node and of its
  Gold child, then the call on the parent.
\<close>

lemma mark_fully_explored_unfold:
  assumes "\<not> not_eligible t n" and "mark_fully_explored t n = Some (Inr t')"
  shows "\<exists>t2. mark_self t n = Inr t2
    \<and> (case parent (heap t n) of
          None \<Rightarrow> t' = t2
        | Some p \<Rightarrow> mark_fully_explored t2 p = Some (Inr t'))"
proof -
  from assms obtain t2 where m: "mark_self t n = Inr t2"
    by (subst (asm) mark_fully_explored.simps) (auto split: sum.splits)
  have p: "parent (heap t2 n) = parent (heap t n)"
    using only_explored_fields(2)[OF mark_self_only_explored[OF m]] .
  show ?thesis
    using assms m p
    by (subst (asm) mark_fully_explored.simps) (auto split: option.splits)
qed

text \<open>Every flag the call raises is that of a node the rules allow, or of its Gold child.\<close>

lemma mark_fully_explored_raised_aux:
  assumes "mark_fully_explored t n = Some y"
  shows "\<forall>t'. y = Inr t' \<longrightarrow> only_explored t t'
      \<and> (\<forall>m. fully_explored (heap t' m) \<and> \<not> fully_explored (heap t m) \<longrightarrow>
            marked_by_rule t t' m
            \<or> (\<exists>r. marked_by_rule t t' r \<and> colour (heap t r) = R
                  \<and> fully_explored (heap t' r) \<and> lookup_child t r Simulation = Some m))"
proof (rule mark_fully_explored.raw_induct
    [where P = "\<lambda>t n y. \<forall>t'. y = Inr t' \<longrightarrow> only_explored t t'
      \<and> (\<forall>m. fully_explored (heap t' m) \<and> \<not> fully_explored (heap t m) \<longrightarrow>
            marked_by_rule t t' m
            \<or> (\<exists>r. marked_by_rule t t' r \<and> colour (heap t r) = R
                  \<and> fully_explored (heap t' r) \<and> lookup_child t r Simulation = Some m))",
     OF _ assms])
  fix mfe :: "'a tree \<Rightarrow> nat \<Rightarrow> (error + 'a tree) option" and t n y
  assume IH: "\<And>t n y. mfe t n = Some y \<Longrightarrow> \<forall>t'. y = Inr t' \<longrightarrow> only_explored t t'
      \<and> (\<forall>m. fully_explored (heap t' m) \<and> \<not> fully_explored (heap t m) \<longrightarrow>
            marked_by_rule t t' m
            \<or> (\<exists>r. marked_by_rule t t' r \<and> colour (heap t r) = R
                  \<and> fully_explored (heap t' r) \<and> lookup_child t r Simulation = Some m))"
    and body: "(if not_eligible t n then Some (Inr t)
      else case mark_self t n of Inl e \<Rightarrow> Some (Inl e)
           | Inr t2 \<Rightarrow>
               case parent (heap t2 n) of None \<Rightarrow> Some (Inr t2)
               | Some p \<Rightarrow> mfe t2 p) = Some y"
  show "\<forall>t'. y = Inr t' \<longrightarrow> only_explored t t'
      \<and> (\<forall>m. fully_explored (heap t' m) \<and> \<not> fully_explored (heap t m) \<longrightarrow>
            marked_by_rule t t' m
            \<or> (\<exists>r. marked_by_rule t t' r \<and> colour (heap t r) = R
                  \<and> fully_explored (heap t' r) \<and> lookup_child t r Simulation = Some m))"
  proof (cases "not_eligible t n")
    case True
    with body show ?thesis by (auto simp: only_explored_refl)
  next
    case False
    show ?thesis
    proof (intro allI impI)
      fix t' assume y: "y = Inr t'"
      from body False y obtain t2 where ms: "mark_self t n = Inr t2"
        by (auto split: sum.splits option.splits)
      have o: "only_explored t t2" using ms by (rule mark_self_only_explored)
      have rest: "only_explored t2 t'
        \<and> (\<forall>m. fully_explored (heap t' m) \<and> \<not> fully_explored (heap t2 m) \<longrightarrow>
            marked_by_rule t2 t' m
            \<or> (\<exists>r. marked_by_rule t2 t' r \<and> colour (heap t2 r) = R
                  \<and> fully_explored (heap t' r) \<and> lookup_child t2 r Simulation = Some m))"
      proof (cases "parent (heap t2 n)")
        case None
        with body False ms y have "t' = t2" by simp
        then show ?thesis by (simp add: only_explored_refl)
      next
        case (Some p)
        with body False ms y have "mfe t2 p = Some (Inr t')" by simp
        then show ?thesis using IH by blast
      qed
      then have o2: "only_explored t2 t'"
        and q2: "\<And>m. fully_explored (heap t' m) \<Longrightarrow> \<not> fully_explored (heap t2 m) \<Longrightarrow>
            marked_by_rule t t' m
            \<or> (\<exists>r. marked_by_rule t t' r \<and> colour (heap t r) = R
                  \<and> fully_explored (heap t' r) \<and> lookup_child t r Simulation = Some m)"
        by (simp_all add: marked_by_rule_only_explored[OF o] only_explored_fields[OF o]
            only_explored_lookups[OF o])
      have o': "only_explored t t'" using o o2 by (rule only_explored_trans)
      have "list_all (\<lambda>c. fully_explored (heap t c)) (block_children t n)"
        using False by (simp add: not_eligible_def)
      then have "list_all (\<lambda>c. fully_explored (heap t' c)) (block_children t n)"
        using only_explored_mono[OF o'] by (simp add: list_all_iff)
      then have rn: "marked_by_rule t t' n"
        using False by (auto simp: marked_by_rule_def not_eligible_def)
      have fn: "fully_explored (heap t' n)"
        using only_explored_mono[OF o2 mark_self_marks(1)[OF ms]] .
      have "\<forall>m. fully_explored (heap t' m) \<and> \<not> fully_explored (heap t m) \<longrightarrow>
            marked_by_rule t t' m
            \<or> (\<exists>r. marked_by_rule t t' r \<and> colour (heap t r) = R
                  \<and> fully_explored (heap t' r) \<and> lookup_child t r Simulation = Some m)"
      proof (intro allI impI)
        fix m assume a: "fully_explored (heap t' m) \<and> \<not> fully_explored (heap t m)"
        show "marked_by_rule t t' m
            \<or> (\<exists>r. marked_by_rule t t' r \<and> colour (heap t r) = R
                  \<and> fully_explored (heap t' r) \<and> lookup_child t r Simulation = Some m)"
        proof (cases "fully_explored (heap t2 m)")
          case True
          then have "m = n \<or> (colour (heap t n) = R \<and> lookup_child t n Simulation = Some m)"
            using mark_self_marks(3)[OF ms] a by blast
          then show ?thesis using rn fn by blast
        next
          case False
          then show ?thesis using q2 a by blast
        qed
      qed
      with o' show "only_explored t t'
      \<and> (\<forall>m. fully_explored (heap t' m) \<and> \<not> fully_explored (heap t m) \<longrightarrow>
            marked_by_rule t t' m
            \<or> (\<exists>r. marked_by_rule t t' r \<and> colour (heap t r) = R
                  \<and> fully_explored (heap t' r) \<and> lookup_child t r Simulation = Some m))"
        by blast
    qed
  qed
qed

text \<open>On a tree that satisfies the invariant the call returns.\<close>

lemma mark_fully_explored_returns:
  "wf t \<Longrightarrow> n < nxt t \<Longrightarrow> \<exists>y. mark_fully_explored t n = Some y"
proof (induction n arbitrary: t rule: less_induct)
  case (less n)
  show ?case
  proof (cases "not_eligible t n")
    case True
    then show ?thesis by (subst mark_fully_explored.simps) simp
  next
    case False
    show ?thesis
    proof (cases "mark_self t n")
      case (Inl e)
      then show ?thesis using False by (subst mark_fully_explored.simps) simp
    next
      case (Inr t2)
      have o: "only_explored t t2" using Inr by (rule mark_self_only_explored)
      have ss: "same_shape t t2" using only_explored_same_shape[OF o] .
      have w2: "wf t2" using less.prems(1) by (simp add: wf_same_shape[OF ss])
      have n2: "nxt t2 = nxt t" using o by (simp add: only_explored_def)
      show ?thesis
      proof (cases "parent (heap t2 n)")
        case None
        then show ?thesis using False Inr by (subst mark_fully_explored.simps) simp
      next
        case (Some p)
        have "wf_node t2 n" using w2 less.prems(2) n2 by (simp add: wf_def)
        then have "p < n" using Some by (simp add: wf_node_def)
        then have "\<exists>y. mark_fully_explored t2 p = Some y"
          using less.IH[OF _ w2] less.prems(2) n2 by simp
        then show ?thesis using False Inr Some by (subst mark_fully_explored.simps) simp
      qed
    qed
  qed
qed

text \<open>
  Claim C2.  Whenever \<^verbatim>\<open>mark_fully_explored\<close> returns on a node \<open>n\<close>, it has changed
  nothing but \<open>fully_explored\<close> flags, which it only raises, and:
  \<^item> if \<open>n\<close> is White, nothing is marked;
  \<^item> if some child of \<open>n\<close> other than the Gold one is not marked, nothing is marked;
  \<^item> if \<open>n\<close> is Red with \<open>sel_try = 0\<close>, nothing is marked;
  \<^item> otherwise \<open>n\<close> is marked; if \<open>n\<close> is Red its \<^verbatim>\<open>'Simulation'\<close> child is marked too; and
    the result is that of the call on the parent of \<open>n\<close>, from the tree with these marks
    (or that tree itself when \<open>n\<close> has no parent);
  \<^item> over the whole recursion, every node whose flag was raised is either a node the
    rules allow (not White, not a Red node with \<open>sel_try = 0\<close>, every child other than
    the Gold one marked) or the \<^verbatim>\<open>'Simulation'\<close> child of such a node that is Red and
    marked.
\<close>

theorem mark_fully_explored_rules:
  assumes "mark_fully_explored t n = Some (Inr t')"
  shows "only_explored t t'
    \<and> (colour (heap t n) = W \<longrightarrow> t' = t)
    \<and> (\<not> list_all (\<lambda>c. fully_explored (heap t c)) (block_children t n) \<longrightarrow> t' = t)
    \<and> (colour (heap t n) = R \<and> sel_try (heap t n) = 0 \<longrightarrow> t' = t)
    \<and> (colour (heap t n) \<noteq> W
         \<and> list_all (\<lambda>c. fully_explored (heap t c)) (block_children t n)
         \<and> \<not> (colour (heap t n) = R \<and> sel_try (heap t n) = 0) \<longrightarrow>
         fully_explored (heap t' n)
         \<and> (colour (heap t n) = R \<longrightarrow>
               (\<exists>s. lookup_child t n Simulation = Some s \<and> fully_explored (heap t' s)))
         \<and> (\<exists>t2. mark_self t n = Inr t2
               \<and> (case parent (heap t n) of
                     None \<Rightarrow> t' = t2
                   | Some p \<Rightarrow> mark_fully_explored t2 p = Some (Inr t'))))
    \<and> (\<forall>m. fully_explored (heap t' m) \<and> \<not> fully_explored (heap t m) \<longrightarrow>
          marked_by_rule t t' m
          \<or> (\<exists>r. marked_by_rule t t' r \<and> colour (heap t r) = R
                \<and> fully_explored (heap t' r) \<and> lookup_child t r Simulation = Some m))"
proof -
  note g = mark_fully_explored_raised_aux[OF assms, rule_format, OF refl]
  have o: "only_explored t t'" using g by simp
  have ne: "not_eligible t n \<Longrightarrow> t' = t"
    using assms by (subst (asm) mark_fully_explored.simps) simp
  have c1: "colour (heap t n) = W \<longrightarrow> t' = t"
    and c2: "\<not> list_all (\<lambda>c. fully_explored (heap t c)) (block_children t n) \<longrightarrow> t' = t"
    and c3: "colour (heap t n) = R \<and> sel_try (heap t n) = 0 \<longrightarrow> t' = t"
    using ne by (auto simp: not_eligible_def)
  have c4: "colour (heap t n) \<noteq> W
         \<and> list_all (\<lambda>c. fully_explored (heap t c)) (block_children t n)
         \<and> \<not> (colour (heap t n) = R \<and> sel_try (heap t n) = 0) \<longrightarrow>
         fully_explored (heap t' n)
         \<and> (colour (heap t n) = R \<longrightarrow>
               (\<exists>s. lookup_child t n Simulation = Some s \<and> fully_explored (heap t' s)))
         \<and> (\<exists>t2. mark_self t n = Inr t2
               \<and> (case parent (heap t n) of
                     None \<Rightarrow> t' = t2
                   | Some p \<Rightarrow> mark_fully_explored t2 p = Some (Inr t')))"
  proof
    assume "colour (heap t n) \<noteq> W
         \<and> list_all (\<lambda>c. fully_explored (heap t c)) (block_children t n)
         \<and> \<not> (colour (heap t n) = R \<and> sel_try (heap t n) = 0)"
    then have el: "\<not> not_eligible t n" by (auto simp: not_eligible_def)
    from mark_fully_explored_unfold[OF el assms] obtain t2 where
      ms: "mark_self t n = Inr t2"
      and u: "case parent (heap t n) of None \<Rightarrow> t' = t2
              | Some p \<Rightarrow> mark_fully_explored t2 p = Some (Inr t')"
      by blast
    have o2: "only_explored t2 t'"
    proof (cases "parent (heap t n)")
      case None
      then show ?thesis using u by (simp add: only_explored_refl)
    next
      case (Some p)
      then show ?thesis using u mark_fully_explored_only_explored by simp
    qed
    have f1: "fully_explored (heap t' n)"
      using only_explored_mono[OF o2 mark_self_marks(1)[OF ms]] .
    have f2: "colour (heap t n) = R \<longrightarrow>
               (\<exists>s. lookup_child t n Simulation = Some s \<and> fully_explored (heap t' s))"
      using mark_self_marks(2)[OF ms] only_explored_mono[OF o2] by blast
    show "fully_explored (heap t' n)
         \<and> (colour (heap t n) = R \<longrightarrow>
               (\<exists>s. lookup_child t n Simulation = Some s \<and> fully_explored (heap t' s)))
         \<and> (\<exists>t2. mark_self t n = Inr t2
               \<and> (case parent (heap t n) of
                     None \<Rightarrow> t' = t2
                   | Some p \<Rightarrow> mark_fully_explored t2 p = Some (Inr t')))"
      using f1 f2 ms u by blast
  qed
  show ?thesis using o c1 c2 c3 c4 g by blast
qed


lemma marked_tree_eq: "mark_fully_explored mark_tree 4 = Some (Inr marked_tree)"
proof -
  have "mark_fully_explored mark_tree 4 \<noteq> None"
    and "\<not> isl (the (mark_fully_explored mark_tree 4))"
    by code_simp+
  then show ?thesis by (auto simp: marked_tree_def)
qed

lemma white_leaf_tree_eq:
  "mark_fully_explored white_leaf_tree 4 = Some (Inr white_leaf_tree)"
proof -
  have "not_eligible white_leaf_tree 4" by code_simp
  then show ?thesis by (subst mark_fully_explored.simps) simp
qed

lemma open_sibling_marked_eq:
  "mark_fully_explored open_sibling_tree 4 = Some (Inr open_sibling_marked)"
proof -
  have "mark_fully_explored open_sibling_tree 4 \<noteq> None"
    and "\<not> isl (the (mark_fully_explored open_sibling_tree 4))"
    by code_simp+
  then show ?thesis by (auto simp: open_sibling_marked_def)
qed

lemma unselected_marked_eq:
  "mark_fully_explored unselected_tree 4 = Some (Inr unselected_marked)"
proof -
  have "mark_fully_explored unselected_tree 4 \<noteq> None"
    and "\<not> isl (the (mark_fully_explored unselected_tree 4))"
    by code_simp+
  then show ?thesis by (auto simp: unselected_marked_def)
qed

lemma mark_tree_values:
  "colour (heap mark_tree 4) = B \<and> \<not> fully_explored (heap mark_tree 4)
   \<and> \<not> fully_explored (heap mark_tree 2) \<and> \<not> fully_explored (heap mark_tree 3)
   \<and> \<not> fully_explored (heap mark_tree 0) \<and> \<not> fully_explored (heap mark_tree 1)
   \<and> fully_explored (heap marked_tree 4) \<and> fully_explored (heap marked_tree 2)
   \<and> fully_explored (heap marked_tree 3) \<and> fully_explored (heap marked_tree 0)
   \<and> fully_explored (heap marked_tree 1)
   \<and> colour (heap white_leaf_tree 4) = W
   \<and> \<not> fully_explored (heap open_sibling_tree 5)
   \<and> fully_explored (heap open_sibling_marked 4)
   \<and> \<not> fully_explored (heap open_sibling_marked 2)
   \<and> colour (heap unselected_tree 2) = R \<and> sel_try (heap unselected_tree 2) = 0
   \<and> fully_explored (heap unselected_marked 4)
   \<and> \<not> fully_explored (heap unselected_marked 2)
   \<and> \<not> fully_explored (heap unselected_marked 3)"
  by code_simp

theorem mark_fully_explored_rules_witness:
  "mark_fully_explored mark_tree 4 = Some (Inr marked_tree)
   \<and> colour (heap mark_tree 4) = B \<and> \<not> fully_explored (heap mark_tree 4)
   \<and> \<not> fully_explored (heap mark_tree 2) \<and> \<not> fully_explored (heap mark_tree 3)
   \<and> \<not> fully_explored (heap mark_tree 0) \<and> \<not> fully_explored (heap mark_tree 1)
   \<and> fully_explored (heap marked_tree 4) \<and> fully_explored (heap marked_tree 2)
   \<and> fully_explored (heap marked_tree 3) \<and> fully_explored (heap marked_tree 0)
   \<and> fully_explored (heap marked_tree 1)
   \<and> colour (heap white_leaf_tree 4) = W
   \<and> mark_fully_explored white_leaf_tree 4 = Some (Inr white_leaf_tree)
   \<and> \<not> fully_explored (heap open_sibling_tree 5)
   \<and> mark_fully_explored open_sibling_tree 4 = Some (Inr open_sibling_marked)
   \<and> fully_explored (heap open_sibling_marked 4)
   \<and> \<not> fully_explored (heap open_sibling_marked 2)
   \<and> colour (heap unselected_tree 2) = R \<and> sel_try (heap unselected_tree 2) = 0
   \<and> mark_fully_explored unselected_tree 4 = Some (Inr unselected_marked)
   \<and> fully_explored (heap unselected_marked 4)
   \<and> \<not> fully_explored (heap unselected_marked 2)
   \<and> \<not> fully_explored (heap unselected_marked 3)"
  using mark_fully_explored_rules[OF marked_tree_eq]
        mark_fully_explored_rules[OF white_leaf_tree_eq]
        mark_fully_explored_rules[OF open_sibling_marked_eq]
        mark_fully_explored_rules[OF unselected_marked_eq]
        marked_tree_eq white_leaf_tree_eq open_sibling_marked_eq unselected_marked_eq
        mark_tree_values
  by simp


end
